theory Spec2Isabelle
  imports Main "HOL-Library.Sublist"
begin

section \<open>Strings\<close>

text \<open>
  A Python \<open>str\<close> is a sequence of code points; it is modelled as a \<open>string\<close>, one
  \<open>char\<close> per code point (the code points below 256). \<open>len\<close> is \<open>length\<close>.
\<close>

text \<open>\<open>sub in s\<close> on two strings: \<open>sub\<close> occurs in \<open>s\<close> as a contiguous run.\<close>

fun str_in :: "string \<Rightarrow> string \<Rightarrow> bool" where
  "str_in sub [] = (sub = [])"
| "str_in sub (c # cs) = (prefix sub (c # cs) \<or> str_in sub cs)"

text \<open>
  \<open>c.isspace()\<close> for the code points below 256: tab to carriage return, the four
  separators 28 to 31, the space, NEL (133) and the no-break space (160).
\<close>

definition isspace :: "char \<Rightarrow> bool" where
  "isspace c = (let n = (of_char c :: nat) in
     (9 \<le> n \<and> n \<le> 13) \<or> (28 \<le> n \<and> n \<le> 32) \<or> n = 133 \<or> n = 160)"

text \<open>\<open>s.strip()\<close>: leading and trailing whitespace removed.\<close>

definition strip :: "string \<Rightarrow> string" where
  "strip s = rev (dropWhile isspace (rev (dropWhile isspace s)))"


section \<open>Records of the batch\<close>

text \<open>The values \<open>json.loads\<close> returns (numbers kept as their text).\<close>

datatype json =
    JNull
  | JBool bool
  | JNum string
  | JStr string
  | JArr "json list"
  | JObj "(string \<times> json) list"

text \<open>
  An annotation \<open>info\<close> is the dict \<open>{"type": ..., "relevance": ...}\<close>. Both values are
  strings in the source: a type read from the file need not be one of \<open>PII_TYPES\<close>, and
  every relevance other than \<open>high\<close> is shown in the second colour. (An annotation of
  the file with further keys is outside the model.)
\<close>

record info =
  type :: string
  relevance :: string

text \<open>
  An entry is the dict of one line: \<open>context\<close>, \<open>question\<close>, \<open>piis\<close>, and whatever other
  keys the line has (\<open>id\<close> among them), which no function of the source reads except
  the header. \<open>piis\<close> is a dict in insertion order: an association list whose keys are
  distinct.
\<close>

record entry =
  other_fields :: "(string \<times> json) list"
  "context" :: string
  question :: string
  piis :: "(string \<times> info) list"

text \<open>\<open>d[k] = v\<close>: an existing key keeps its place, a new key goes to the end.\<close>

fun dict_set :: "'k \<Rightarrow> 'v \<Rightarrow> ('k \<times> 'v) list \<Rightarrow> ('k \<times> 'v) list" where
  "dict_set k v [] = [(k, v)]"
| "dict_set k v (p # ps) = (if fst p = k then (k, v) # ps else p # dict_set k v ps)"

section \<open>Utility functions\<close>

definition PII_TYPES :: "string list" where
  "PII_TYPES = [''age'', ''contact'', ''education'', ''family'', ''finance'', ''health'',
     ''location'', ''name'', ''nationality'', ''occupation'', ''public organization'',
     ''sexual orientation'']"





text \<open>
  A dict built item by item (a dict comprehension, or a loop of \<open>d[k] = v\<close> on an
  empty dict).
\<close>

definition dict_of_items :: "('k \<times> 'v) list \<Rightarrow> ('k \<times> 'v) list" where
  "dict_of_items xs = fold (\<lambda>(k, v) d. dict_set k v d) xs []"

text \<open>
  \<open>refresh_pii_from_context\<close>: the dict comprehension keeps the items whose key occurs
  in the context; the other keys of the entry stay.
\<close>

definition refresh_pii_from_context :: "entry \<Rightarrow> entry" where
  "refresh_pii_from_context e =
     e\<lparr>piis := dict_of_items (filter (\<lambda>(pii, i). str_in pii (context e)) (piis e))\<rparr>"

section \<open>Session state\<close>

text \<open>
  The keys of \<open>st.session_state\<close> that belong to widgets: \<open>context_{idx}\<close>,
  \<open>question_{idx}\<close>, \<open>type_{idx}_{pii}\<close> and \<open>rel_{idx}_{pii}\<close>. The index is printed in
  decimal, so the f-strings are injective and a key is its index and its annotation.
\<close>

datatype skey =
    ContextKey nat
  | QuestionKey nat
  | TypeKey nat string
  | RelKey nat string

type_synonym addr = nat

text \<open>
  Entries are mutable dicts, and the working list and the original list hold
  references to them. \<open>objects\<close> is the store of all entry dicts allocated so far, a
  reference is an index into it. \<open>entries\<close>, \<open>original_entries\<close> and \<open>current_idx\<close>
  are the three keys the script sets itself (\<open>None\<close>: the key is absent), \<open>widgets\<close>
  holds the widget keys. The index is never negative in the source and is a \<open>nat\<close>.

  A widget with a key shows the value stored under its key, and what the user enters
  is stored under the key before the next run starts: an edit is a change of
  \<open>widgets\<close> between two runs. When a run ends, the toolkit removes the keys of the
  widgets that the run has not created (see \<open>drop_stale\<close> below); this is why the
  script sets each key again when it is absent.
\<close>

record 'e session =
  objects :: "'e list"
  entries :: "addr list option"
  original_entries :: "addr list option"
  current_idx :: "nat option"
  widgets :: "skey \<rightharpoonup> string"

datatype py_error = IndexError | KeyError | AttributeError | JSONDecodeError

text \<open>
  A raised exception is kept with the state at the moment it is raised: what the
  script stored before stays in \<open>st.session_state\<close>.
\<close>

type_synonym 's raised = "py_error \<times> 's"

text \<open>
  \<open>st.warning\<close>, \<open>st.error\<close>, \<open>st.success\<close> and \<open>st.info\<close>, with their text (the
  icon some of them start with is left out: it is no code point below 256).
\<close>

datatype message = Warning string | Error string | Success string | Info string

text \<open>\<open>st.session_state.get(key, default)\<close>.\<close>

definition state_get :: "(skey \<rightharpoonup> string) \<Rightarrow> skey \<Rightarrow> string \<Rightarrow> string" where
  "state_get w k d = (case w k of None \<Rightarrow> d | Some v \<Rightarrow> v)"

text \<open>New dicts with the given contents: their references, and the store with them.\<close>

definition alloc :: "'e list \<Rightarrow> 'e list \<Rightarrow> addr list \<times> 'e list" where
  "alloc vs h = ([length h ..< length h + length vs], h @ vs)"

text \<open>
  \<open>copy.deepcopy\<close> of a list of entries: a new dict for every element, equal to it
  and sharing nothing with it. (The elements of a list are distinct dicts in every
  state of the session, so the memo table of \<open>deepcopy\<close> never hits.)
\<close>

definition deepcopy :: "addr list \<Rightarrow> 'e list \<Rightarrow> addr list \<times> 'e list" where
  "deepcopy refs h = alloc (map (\<lambda>a. h ! a) refs) h"

text \<open>The entry a reference of the working list points to.\<close>

definition entry_at :: "'e session \<Rightarrow> nat \<Rightarrow> 'e" where
  "entry_at s i = objects s ! (the (entries s) ! i)"

definition original_at :: "'e session \<Rightarrow> nat \<Rightarrow> 'e" where
  "original_at s i = objects s ! (the (original_entries s) ! i)"

section \<open>Reconciliation\<close>

text \<open>The loop of \<open>save_current_edits\<close> that builds \<open>updated_piis\<close>.\<close>

definition updated_piis ::
  "(skey \<rightharpoonup> string) \<Rightarrow> nat \<Rightarrow> (string \<times> info) list \<Rightarrow> (string \<times> info) list" where
  "updated_piis w idx ps =
     dict_of_items (map (\<lambda>(pii, i).
       (pii, \<lparr>type = state_get w (TypeKey idx pii) (type i),
              relevance = state_get w (RelKey idx pii) (relevance i)\<rparr>)) ps)"

text \<open>What \<open>save_current_edits\<close> makes of the entry at \<open>idx\<close>.\<close>

definition reconcile :: "(skey \<rightharpoonup> string) \<Rightarrow> nat \<Rightarrow> entry \<Rightarrow> entry" where
  "reconcile w idx entry =
     entry\<lparr>context := state_get w (ContextKey idx) (context entry),
           question := state_get w (QuestionKey idx) (question entry),
           piis := updated_piis w idx (piis entry)\<rparr>"

text \<open>
  \<open>save_current_edits(idx, entries)\<close>: \<open>entries[idx]\<close> raises IndexError out of range;
  the dict is changed in place and the list is stored under \<open>entries\<close>.
\<close>

definition save_current_edits ::
  "nat \<Rightarrow> addr list \<Rightarrow> entry session \<Rightarrow> entry session raised + entry session" where
  "save_current_edits idx es s =
     (if idx < length es then
        let a = es ! idx
        in Inr (s\<lparr>objects := (objects s)[a := reconcile (widgets s) idx (objects s ! a)],
                  entries := Some es\<rparr>)
      else Inl (IndexError, s))"

section \<open>The script\<close>

text \<open>
  One run of the script is a sequence of blocks. A block raises, or returns whether it
  ended in \<open>st.rerun()\<close>, the messages it showed and the state it left.
\<close>

type_synonym 's outcome = "'s raised + bool \<times> message list \<times> 's"

text \<open>The next block runs unless the one before raised or asked for a rerun.\<close>

fun run_blocks :: "('s \<Rightarrow> 's outcome) list \<Rightarrow> 's \<Rightarrow> 's outcome" where
  "run_blocks [] s = Inr (False, [], s)"
| "run_blocks (b # bs) s =
     (case b s of
        Inl x \<Rightarrow> Inl x
      | Inr (rerun, ms, s1) \<Rightarrow>
          if rerun then Inr (True, ms, s1)
          else (case run_blocks bs s1 of
                  Inl x \<Rightarrow> Inl x
                | Inr (rerun', ms', s2) \<Rightarrow> Inr (rerun', ms @ ms', s2)))"

subsection \<open>Load\<close>

text \<open>
  The load block. \<open>parse\<close> is \<open>json.loads\<close> (\<open>None\<close>: it raises JSONDecodeError) and
  \<open>uploaded_file\<close> the lines of the uploaded file, if there is one. The list
  comprehension raises at the first line that does not parse, before anything is
  stored. The block does not look into the parsed values, hence the type \<open>'e\<close>.
\<close>

definition load_block ::
  "(string \<Rightarrow> 'e option) \<Rightarrow> string list option \<Rightarrow> 'e session \<Rightarrow> 'e session raised + 'e session"
  where
  "load_block parse uploaded_file s =
     (case uploaded_file of
        None \<Rightarrow> Inr s
      | Some lines \<Rightarrow>
          if entries s \<noteq> None then Inr s
          else (case those (map parse lines) of
                  None \<Rightarrow> Inl (JSONDecodeError, s)
                | Some vs \<Rightarrow>
                    let (loaded, h0) = alloc vs (objects s);
                        (working, h1) = deepcopy loaded h0;
                        (original, h2) = deepcopy loaded h1
                    in Inr (s\<lparr>objects := h2, entries := Some working,
                              original_entries := Some original, current_idx := Some 0\<rparr>)))"

subsection \<open>Navigation\<close>

text \<open>
  A button returns True in the run its click starts, and a disabled button is never
  clicked: \<open>clicked\<close> says that the user clicked, the block adds the \<open>disabled\<close> test.
\<close>

definition previous_button ::
  "bool \<Rightarrow> nat \<Rightarrow> addr list \<Rightarrow> entry session \<Rightarrow> entry session outcome" where
  "previous_button clicked idx es s =
     (if clicked \<and> \<not> (idx = 0) then
        case save_current_edits idx es s of
          Inl x \<Rightarrow> Inl x
        | Inr s1 \<Rightarrow> Inr (True, [], s1\<lparr>current_idx := Some (max 0 (idx - 1))\<rparr>)
      else Inr (False, [], s))"

text \<open>\<open>goto\<close> is the value of the number input, which the widget keeps in \<open>[1, len(entries)]\<close>.\<close>

definition go_button ::
  "bool \<Rightarrow> nat \<Rightarrow> nat \<Rightarrow> addr list \<Rightarrow> entry session \<Rightarrow> entry session outcome" where
  "go_button clicked goto idx es s =
     (if clicked then
        case save_current_edits idx es s of
          Inl x \<Rightarrow> Inl x
        | Inr s1 \<Rightarrow> Inr (True, [], s1\<lparr>current_idx := Some (goto - 1)\<rparr>)
      else Inr (False, [], s))"

definition next_button ::
  "bool \<Rightarrow> nat \<Rightarrow> addr list \<Rightarrow> entry session \<Rightarrow> entry session outcome" where
  "next_button clicked idx es s =
     (if clicked \<and> \<not> (int idx = int (length es) - 1) then
        case save_current_edits idx es s of
          Inl x \<Rightarrow> Inl x
        | Inr s1 \<Rightarrow> Inr (True, [], s1\<lparr>current_idx := Some (min (length es - 1) (idx + 1))\<rparr>)
      else Inr (False, [], s))"

subsection \<open>Widget keys\<close>

text \<open>\<open>if key not in st.session_state: st.session_state[key] = value\<close>.\<close>

definition init_key :: "skey \<Rightarrow> string \<Rightarrow> 'e session \<Rightarrow> 'e session" where
  "init_key k v s = (if widgets s k = None then s\<lparr>widgets := (widgets s)(k \<mapsto> v)\<rparr> else s)"

definition init_context :: "nat \<Rightarrow> addr list \<Rightarrow> entry session \<Rightarrow> entry session" where
  "init_context idx es s = init_key (ContextKey idx) (context (objects s ! (es ! idx))) s"

definition init_question :: "nat \<Rightarrow> addr list \<Rightarrow> entry session \<Rightarrow> entry session" where
  "init_question idx es s = init_key (QuestionKey idx) (question (objects s ! (es ! idx))) s"

text \<open>The loop of the PII editors, as far as it writes \<open>st.session_state\<close>.\<close>

definition init_piis :: "nat \<Rightarrow> addr list \<Rightarrow> entry session \<Rightarrow> entry session" where
  "init_piis idx es s =
     fold (\<lambda>(pii, i) s'. init_key (RelKey idx pii) (relevance i)
                           (init_key (TypeKey idx pii) (type i) s'))
       (piis (objects s ! (es ! idx))) s"

subsection \<open>Add, update, save, download, load original\<close>

text \<open>Lines 130 to 132: the new annotation is stored, then the list is refreshed.\<close>

definition add_to_entry :: "string \<Rightarrow> string \<Rightarrow> string \<Rightarrow> entry \<Rightarrow> entry" where
  "add_to_entry pii_val new_pii_type new_pii_rel entry =
     refresh_pii_from_context
       (entry\<lparr>piis := dict_set pii_val \<lparr>type = new_pii_type, relevance = new_pii_rel\<rparr>
                        (piis entry)\<rparr>)"

text \<open>
  The Add PII button. \<open>st.session_state[context_key]\<close> raises KeyError when the key is
  absent.
\<close>

definition add_pii_button ::
  "bool \<Rightarrow> string \<Rightarrow> string \<Rightarrow> string \<Rightarrow> nat \<Rightarrow> addr list \<Rightarrow> entry session
     \<Rightarrow> entry session outcome" where
  "add_pii_button clicked new_pii_val new_pii_type new_pii_rel idx es s =
     (if clicked then
        case save_current_edits idx es s of
          Inl x \<Rightarrow> Inl x
        | Inr s1 \<Rightarrow>
            (case widgets s1 (ContextKey idx) of
               None \<Rightarrow> Inl (KeyError, s1)
             | Some context_text \<Rightarrow>
                 let pii_val = strip new_pii_val in
                 if pii_val = [] then
                   Inr (False, [Warning ''Please enter a PII value before adding.''], s1)
                 else if \<not> str_in pii_val context_text then
                   Inr (False,
                     [Error ''The PII value does not appear in the context. Add it to the text first.''],
                     s1)
                 else
                   let a = es ! idx;
                       entry = add_to_entry pii_val new_pii_type new_pii_rel (objects s1 ! a)
                   in Inr (True,
                        [Success (''Added PII: '' @ pii_val @ '' and updated PII list.'')],
                        s1\<lparr>objects := (objects s1)[a := entry], entries := Some es\<rparr>))
      else Inr (False, [], s))"

definition update_button ::
  "bool \<Rightarrow> nat \<Rightarrow> addr list \<Rightarrow> entry session \<Rightarrow> entry session outcome" where
  "update_button clicked idx es s =
     (if clicked then
        case save_current_edits idx es s of
          Inl x \<Rightarrow> Inl x
        | Inr s1 \<Rightarrow>
            let a = es ! idx
            in Inr (True, [Success ''PIIs updated to match context.''],
                 s1\<lparr>objects := (objects s1)[a := refresh_pii_from_context (objects s1 ! a)],
                    entries := Some es\<rparr>)
      else Inr (False, [], s))"

definition save_button ::
  "bool \<Rightarrow> nat \<Rightarrow> addr list \<Rightarrow> entry session \<Rightarrow> entry session outcome" where
  "save_button clicked idx es s =
     (if clicked then
        case save_current_edits idx es s of
          Inl x \<Rightarrow> Inl x
        | Inr s1 \<Rightarrow> Inr (False, [Success ''Edits saved (in memory).''], s1)
      else Inr (False, [], s))"

text \<open>
  The download button: its \<open>data\<close> argument is evaluated in every run that reaches it,
  and calls \<open>save_current_edits\<close> on the index and the list read from the state.
\<close>

definition download_button :: "bool \<Rightarrow> entry session \<Rightarrow> entry session outcome" where
  "download_button clicked s =
     (case current_idx s of
        None \<Rightarrow> Inl (AttributeError, s)
      | Some cur \<Rightarrow>
          (case entries s of
             None \<Rightarrow> Inl (AttributeError, s)
           | Some es \<Rightarrow>
               (case save_current_edits cur es s of
                  Inl x \<Rightarrow> Inl x
                | Inr s1 \<Rightarrow>
                    Inr (False,
                      if clicked then [Success ''Edits saved and file ready for download.'']
                      else [], s1))))"

text \<open>The Load Original button; \<open>st.session_state.clear()\<close> removes every key.\<close>

definition load_original_button :: "bool \<Rightarrow> 'e session \<Rightarrow> 'e session outcome" where
  "load_original_button clicked s =
     (if clicked then
        case original_entries s of
          Some os \<Rightarrow>
            let (original, h1) = deepcopy os (objects s);
                (working, h2) = deepcopy original h1;
                (pristine, h3) = deepcopy original h2
            in Inr (True, [Success ''Original data reloaded.''],
                 \<lparr>objects = h3, entries = Some working, original_entries = Some pristine,
                  current_idx = Some 0, widgets = Map.empty\<rparr>)
        | None \<Rightarrow> Inr (False, [Warning ''No original data found to restore.''], s)
      else Inr (False, [], s))"

subsection \<open>A run\<close>

datatype click =
    NoClick
  | Previous
  | Go nat
  | Next
  | AddPII string string string
  | UpdatePII
  | SaveEdits
  | Download
  | LoadOriginal

text \<open>
  The part of the script under \<open>if "entries" in st.session_state\<close>, in the order of
  the source. \<open>entries\<close>, \<open>idx\<close> and \<open>entry\<close> are read once, at the top.
\<close>

definition body :: "click \<Rightarrow> entry session \<Rightarrow> entry session outcome" where
  "body c s =
     (case entries s of
        None \<Rightarrow> Inr (False, [Info ''Upload a .jsonl file to begin annotation.''], s)
      | Some es \<Rightarrow>
          (case current_idx s of
             None \<Rightarrow> Inl (AttributeError, s)
           | Some idx \<Rightarrow>
               if \<not> idx < length es then Inl (IndexError, s)
               else run_blocks
                 [previous_button (c = Previous) idx es,
                  (case c of Go goto \<Rightarrow> go_button True goto idx es
                   | _ \<Rightarrow> go_button False (idx + 1) idx es),
                  next_button (c = Next) idx es,
                  (\<lambda>s. Inr (False, [], init_context idx es s)),
                  (case c of AddPII v t r \<Rightarrow> add_pii_button True v t r idx es
                   | _ \<Rightarrow> add_pii_button False [] [] [] idx es),
                  update_button (c = UpdatePII) idx es,
                  (\<lambda>s. Inr (False, [], init_question idx es s)),
                  (\<lambda>s. Inr (False, [], init_piis idx es s)),
                  save_button (c = SaveEdits) idx es,
                  download_button (c = Download),
                  load_original_button (c = LoadOriginal)] s))"

subsection \<open>The widget keys the toolkit removes\<close>

text \<open>
  The widgets of the script that have a key are the two text areas and the two
  selectboxes of every annotation of the active entry. (The three inputs of the Add
  form have keys as well; the script reads them only through the values their calls
  return, which are arguments of \<open>add_pii_button\<close> here.)
\<close>

definition entry_widgets :: "nat \<Rightarrow> entry \<Rightarrow> skey list" where
  "entry_widgets idx entry =
     ContextKey idx # QuestionKey idx
       # concat (map (\<lambda>(pii, i). [TypeKey idx pii, RelKey idx pii]) (piis entry))"

text \<open>
  The keyed widgets the script has created when a button ends the run with
  \<open>st.rerun()\<close>: none for the navigation buttons (lines 84, 94 and 99 come before the
  context text area of line 107), the context text area for Add PII and Update
  (lines 136 and 145), all of them for Load Original (line 215).
\<close>

fun created_before_rerun :: "click \<Rightarrow> nat \<Rightarrow> entry \<Rightarrow> skey list" where
  "created_before_rerun Previous idx entry = []"
| "created_before_rerun (Go goto) idx entry = []"
| "created_before_rerun Next idx entry = []"
| "created_before_rerun (AddPII v t r) idx entry = [ContextKey idx]"
| "created_before_rerun UpdatePII idx entry = [ContextKey idx]"
| "created_before_rerun c idx entry = entry_widgets idx entry"

text \<open>
  The keyed widgets a run of the body has created when it ends, by \<open>st.rerun()\<close> or
  at the end of the script: \<open>s0\<close> is the state the body started in, \<open>s1\<close> the state
  it left. Without a file no widget has a key. The annotations have the keys they
  had in the loop of the PII editors: the blocks after it keep the keys of \<open>piis\<close>.
\<close>

definition rendered :: "click \<Rightarrow> bool \<Rightarrow> entry session \<Rightarrow> entry session \<Rightarrow> skey list" where
  "rendered c rerun s0 s1 =
     (case entries s0 of
        None \<Rightarrow> []
      | Some es \<Rightarrow>
          (case current_idx s0 of
             None \<Rightarrow> []
           | Some idx \<Rightarrow>
               if rerun then created_before_rerun c idx (objects s1 ! (es ! idx))
               else entry_widgets idx (objects s1 ! (es ! idx))))"

text \<open>
  When a run ends, the toolkit removes from \<open>st.session_state\<close> the key of every
  widget that the run has not created.
\<close>

definition drop_stale :: "skey list \<Rightarrow> 'e session \<Rightarrow> 'e session" where
  "drop_stale created s = s\<lparr>widgets := widgets s |` set created\<rparr>"

subsection \<open>A whole run\<close>

text \<open>
  A run: the load block and the body; after \<open>st.rerun()\<close> the script once more from
  the top with no button clicked; at the end the stale widget keys are removed. They
  are removed at \<open>st.rerun()\<close> too if \<open>cleans\<close> holds: whether the toolkit counts
  that as the end of a run has changed between its releases, and both are covered.
  When the script raises, the state is the one at that moment.
\<close>

definition run ::
  "bool \<Rightarrow> (string \<Rightarrow> entry option) \<Rightarrow> string list option \<Rightarrow> click \<Rightarrow> entry session
     \<Rightarrow> entry session raised + message list \<times> entry session" where
  "run cleans parse uploaded_file c s =
     (case load_block parse uploaded_file s of
        Inl x \<Rightarrow> Inl x
      | Inr s0 \<Rightarrow>
          (case body c s0 of
             Inl x \<Rightarrow> Inl x
           | Inr (rerun, ms, s1) \<Rightarrow>
               if rerun then
                 (case load_block parse uploaded_file
                         (if cleans then drop_stale (rendered c True s0 s1) s1 else s1) of
                    Inl x \<Rightarrow> Inl x
                  | Inr s2 \<Rightarrow>
                      (case body NoClick s2 of
                         Inl x \<Rightarrow> Inl x
                       | Inr (rerun', ms', s3) \<Rightarrow>
                           Inr (ms', drop_stale (rendered NoClick False s2 s3) s3)))
               else Inr (ms, drop_stale (rendered c False s0 s1) s1)))"

text \<open>The three blocks that give the widgets of the entry their first values.\<close>

definition init_widgets :: "nat \<Rightarrow> addr list \<Rightarrow> entry session \<Rightarrow> entry session" where
  "init_widgets idx es s = init_piis idx es (init_question idx es (init_context idx es s))"

text \<open>
  The state the body leaves when no button is clicked, at entry \<open>idx\<close> of the list
  \<open>es\<close>, and the state a run with no click leaves.
\<close>

definition settle :: "nat \<Rightarrow> addr list \<Rightarrow> entry session \<Rightarrow> entry session" where
  "settle idx es s = (init_widgets idx es s)\<lparr>objects := (objects s)[es ! idx :=
         reconcile (widgets (init_widgets idx es s)) idx (objects s ! (es ! idx))],
       entries := Some es\<rparr>"

definition settled :: "nat \<Rightarrow> addr list \<Rightarrow> entry session \<Rightarrow> entry session" where
  "settled idx es s =
     drop_stale (entry_widgets idx (objects (settle idx es s) ! (es ! idx))) (settle idx es s)"

subsection \<open>Sessions\<close>

text \<open>The state of a new session: \<open>st.session_state\<close> is empty, no entry exists.\<close>

definition new_session :: "'e session" where
  "new_session = \<lparr>objects = [], entries = None, original_entries = None,
     current_idx = None, widgets = Map.empty\<rparr>"

text \<open>
  The states a session can be in after \<open>s0\<close>: between two runs the user changes widget
  values, and every run, with whatever file is in the uploader and whatever button
  is clicked, leaves a state behind, also when it raises. The toolkit may remove
  widget keys as well (it does so after a run that raised, in some of its
  releases).
\<close>

inductive steps ::
  "(string \<Rightarrow> entry option) \<Rightarrow> entry session \<Rightarrow> entry session \<Rightarrow> bool"
  for parse :: "string \<Rightarrow> entry option" and s0 :: "entry session" where
  start: "steps parse s0 s0"
| user_edit: "steps parse s0 s \<Longrightarrow> steps parse s0 (s\<lparr>widgets := (widgets s)(k \<mapsto> v)\<rparr>)"
| keys_removed: "steps parse s0 s \<Longrightarrow> steps parse s0 (drop_stale kept s)"
| run_returns:
    "steps parse s0 s \<Longrightarrow> run cleans parse uploaded_file c s = Inr (ms, s') \<Longrightarrow> steps parse s0 s'"
| run_raises:
    "steps parse s0 s \<Longrightarrow> run cleans parse uploaded_file c s = Inl (e, s') \<Longrightarrow> steps parse s0 s'"

text \<open>The references a key of the state holds, none when the key is absent.\<close>

definition refs_of :: "addr list option \<Rightarrow> addr list" where
  "refs_of r = (case r of None \<Rightarrow> [] | Some xs \<Rightarrow> xs)"

text \<open>
  The references of a session are sound: each list holds distinct dicts of the store,
  and no dict of the working list is a dict of the original list.
\<close>

definition sound :: "'e session \<Rightarrow> bool" where
  "sound s =
     (distinct (refs_of (entries s))
      \<and> list_all (\<lambda>a. a < length (objects s)) (refs_of (entries s))
      \<and> distinct (refs_of (original_entries s))
      \<and> list_all (\<lambda>a. a < length (objects s)) (refs_of (original_entries s))
      \<and> list_all (\<lambda>a. a \<notin> set (refs_of (original_entries s))) (refs_of (entries s)))"

text \<open>
  The session is loaded and sound, and the entries of its original list have the
  values \<open>vs\<close>.
\<close>

definition pristine :: "'e list \<Rightarrow> 'e session \<Rightarrow> bool" where
  "pristine vs s =
     (sound s \<and> entries s \<noteq> None \<and> original_entries s \<noteq> None
      \<and> map (\<lambda>a. objects s ! a) (refs_of (original_entries s)) = vs)"

text \<open>The same, with the working list \<open>es\<close> that a run has read.\<close>

definition working :: "'e list \<Rightarrow> addr list \<Rightarrow> 'e session \<Rightarrow> bool" where
  "working vs es s = (pristine vs s \<and> entries s = Some es)"

text \<open>The state a block leaves, however it ends, satisfies \<open>P\<close>.\<close>

definition ends_in :: "('s \<Rightarrow> bool) \<Rightarrow> 's outcome \<Rightarrow> bool" where
  "ends_in P r = (case r of Inl (e, s) \<Rightarrow> P s | Inr (rerun, ms, s) \<Rightarrow> P s)"

text \<open>Either nothing is loaded, or the session is sound and has its original list.\<close>

definition loaded_with_original :: "entry session \<Rightarrow> bool" where
  "loaded_with_original s = (entries s = None \<or> (\<exists>vs. pristine vs s))"

section \<open>Example values\<close>

definition name_high :: info where
  "name_high = \<lparr>type = ''name'', relevance = ''high''\<rparr>"

definition name_low :: info where
  "name_low = \<lparr>type = ''name'', relevance = ''low''\<rparr>"

definition meeting :: entry where
  "meeting = \<lparr>other_fields = [(''id'', JStr ''r1'')], context = ''Alice met Bob'',
     question = ''Who met whom?'',
     piis = [(''Alice'', name_high), (''Carol'', name_low), (''Bob'', name_low)]\<rparr>"

definition letter :: entry where
  "letter = \<lparr>other_fields = [], context = ''Dear Eve'', question = ''Who is addressed?'',
     piis = [(''Eve'', name_high)]\<rparr>"

text \<open>
  A session on the two entries, as the load block leaves it, after the user has typed
  a new context for the first entry.
\<close>

definition editing :: "entry session" where
  "editing = \<lparr>objects = [meeting, letter, meeting, letter, meeting, letter],
     entries = Some [2, 3], original_entries = Some [4, 5], current_idx = Some 0,
     widgets = [ContextKey 0 \<mapsto> ''Alice met Dave'']\<rparr>"

text \<open>The session right after the load block has read the two entries.\<close>

definition loaded :: "entry session" where
  "loaded = \<lparr>objects = [meeting, letter, meeting, letter, meeting, letter],
     entries = Some [2, 3], original_entries = Some [4, 5], current_idx = Some 0,
     widgets = Map.empty\<rparr>"

text \<open>\<open>json.loads\<close> on the two lines of that file.\<close>

definition two_lines :: "string \<Rightarrow> entry option" where
  "two_lines = map_of [(''m'', meeting), (''l'', letter)]"

text \<open>\<open>json.loads\<close> on two lines that are JSON but no records; it raises on the others.\<close>

definition loads :: "string \<Rightarrow> json option" where
  "loads = map_of [(''{}'', JObj []), (''7'', JNum ''7'')]"

section \<open>Properties of the utility functions\<close>

lemma str_in_iff: "str_in sub s \<longleftrightarrow> (\<exists>pre suf. s = pre @ sub @ suf)"
proof (induction s)
  case Nil
  then show ?case by auto
next
  case (Cons c cs)
  have "sublist sub (c # cs) \<longleftrightarrow> prefix sub (c # cs) \<or> sublist sub cs"
    by (rule sublist_Cons_right)
  with Cons show ?case
    unfolding sublist_def by simp
qed

subsection \<open>Dicts\<close>

lemma dict_set_fresh: "k \<notin> fst ` set ps \<Longrightarrow> dict_set k v ps = ps @ [(k, v)]"
  by (induction ps) auto

lemma dict_set_keys: "fst ` set (dict_set k v ps) = insert k (fst ` set ps)"
  by (induction ps) auto

lemma dict_set_distinct: "distinct (map fst ps) \<Longrightarrow> distinct (map fst (dict_set k v ps))"
  by (induction ps) (auto simp: dict_set_keys)

lemma dict_set_lookup: "map_of (dict_set k v ps) = (map_of ps)(k \<mapsto> v)"
  by (induction ps) (auto simp: fun_eq_iff)

lemma fold_dict_set_fresh:
  "distinct (map fst (acc @ xs)) \<Longrightarrow> fold (\<lambda>(k, v) d. dict_set k v d) xs acc = acc @ xs"
proof (induction xs arbitrary: acc)
  case Nil
  then show ?case by simp
next
  case (Cons x xs)
  obtain k v where x: "x = (k, v)" by (cases x)
  from Cons.prems have fresh: "k \<notin> fst ` set acc"
    by (auto simp: x)
  from Cons.prems have "distinct (map fst ((acc @ [(k, v)]) @ xs))"
    by (auto simp: x)
  then have "fold (\<lambda>(k, v) d. dict_set k v d) xs (acc @ [(k, v)]) = (acc @ [(k, v)]) @ xs"
    by (rule Cons.IH)
  with fresh show ?case
    by (simp add: x dict_set_fresh)
qed

lemma dict_of_items_distinct: "distinct (map fst xs) \<Longrightarrow> dict_of_items xs = xs"
  using fold_dict_set_fresh [of "[]" xs] by (simp add: dict_of_items_def)

lemma fold_dict_set_keys:
  "fst ` set (fold (\<lambda>(k, v) d. dict_set k v d) xs acc) = fst ` set acc \<union> fst ` set xs"
  by (induction xs arbitrary: acc) (auto simp: dict_set_keys split: prod.splits)

lemma dict_of_items_keys: "fst ` set (dict_of_items xs) = fst ` set xs"
  by (simp add: dict_of_items_def fold_dict_set_keys)

lemma fold_dict_set_distinct:
  "distinct (map fst acc) \<Longrightarrow> distinct (map fst (fold (\<lambda>(k, v) d. dict_set k v d) xs acc))"
  by (induction xs arbitrary: acc) (auto simp: dict_set_distinct split: prod.splits)

lemma dict_of_items_is_dict: "distinct (map fst (dict_of_items xs))"
  by (simp add: dict_of_items_def fold_dict_set_distinct)

lemma dict_set_subset: "set (dict_set k v ps) \<subseteq> insert (k, v) (set ps)"
  by (induction ps) auto

lemma fold_dict_set_subset:
  "set (fold (\<lambda>(k, v) d. dict_set k v d) xs acc) \<subseteq> set acc \<union> set xs"
proof (induction xs arbitrary: acc)
  case Nil
  then show ?case by simp
next
  case (Cons x xs)
  obtain k v where x: "x = (k, v)" by (cases x)
  have "set (fold (\<lambda>(k, v) d. dict_set k v d) xs (dict_set k v acc))
          \<subseteq> set (dict_set k v acc) \<union> set xs"
    by (rule Cons.IH)
  also have "\<dots> \<subseteq> set acc \<union> set (x # xs)"
    using dict_set_subset [of k v acc] by (auto simp: x)
  finally show ?case by (simp add: x)
qed

lemma dict_of_items_subset: "set (dict_of_items xs) \<subseteq> set xs"
  using fold_dict_set_subset [of xs "[]"] by (simp add: dict_of_items_def)


lemma updated_piis_keys: "fst ` set (updated_piis w idx ps) = fst ` set ps"
  by (force simp: updated_piis_def dict_of_items_keys image_iff split: prod.splits)

lemma updated_piis_dict:
  assumes "distinct (map fst ps)"
  shows "updated_piis w idx ps = map (\<lambda>(pii, i).
       (pii, \<lparr>type = state_get w (TypeKey idx pii) (type i),
              relevance = state_get w (RelKey idx pii) (relevance i)\<rparr>)) ps"
proof -
  let ?f = "\<lambda>(pii, i). (pii, \<lparr>type = state_get w (TypeKey idx pii) (type i),
              relevance = state_get w (RelKey idx pii) (relevance i)\<rparr>)"
  have "map fst (map ?f ps) = map fst ps"
    by (simp add: case_prod_beta comp_def)
  with assms have "distinct (map fst (map ?f ps))"
    by metis
  then have "dict_of_items (map ?f ps) = map ?f ps"
    by (rule dict_of_items_distinct)
  then show ?thesis
    by (simp add: updated_piis_def)
qed

lemma add_to_entry_has_key:
  assumes "str_in k (context e)"
  shows "k \<in> fst ` set (piis (add_to_entry k t r e))"
proof -
  let ?P = "\<lambda>(pii, i). str_in pii (context e)"
  have "k \<in> fst ` set (dict_set k \<lparr>type = t, relevance = r\<rparr> (piis e))"
    by (simp add: dict_set_keys)
  with assms have "k \<in> fst ` set (filter ?P (dict_set k \<lparr>type = t, relevance = r\<rparr> (piis e)))"
    by (auto simp: image_iff)
  then show ?thesis
    by (simp add: add_to_entry_def refresh_pii_from_context_def dict_of_items_keys)
qed

lemma add_to_entry_frame:
  "context (add_to_entry k t r e) = context e \<and> question (add_to_entry k t r e) = question e
   \<and> other_fields (add_to_entry k t r e) = other_fields e"
  by (simp add: add_to_entry_def refresh_pii_from_context_def)

section \<open>Pruning\<close>

text \<open>
  C2. For every entry whose \<open>piis\<close> is a dict (its keys are distinct),
  \<open>refresh_pii_from_context\<close> (the spec's pruneToContext) keeps, in their order and
  with their type and relevance, exactly the annotations whose key is a literal
  substring of the context, and removes the others; the context, the question and the
  other keys of the entry are unchanged.
\<close>

theorem refresh_pii_from_context_keeps_substrings:
  assumes "distinct (map fst (piis e))"
  shows "piis (refresh_pii_from_context e)
           = filter (\<lambda>p. \<exists>pre suf. context e = pre @ fst p @ suf) (piis e)
         \<and> context (refresh_pii_from_context e) = context e
         \<and> question (refresh_pii_from_context e) = question e
         \<and> other_fields (refresh_pii_from_context e) = other_fields e"
proof -
  let ?P = "\<lambda>(pii, i). str_in pii (context e)"
  have "distinct (map fst (filter ?P (piis e)))"
    using assms by (rule distinct_map_filter)
  then have "dict_of_items (filter ?P (piis e)) = filter ?P (piis e)"
    by (rule dict_of_items_distinct)
  moreover have "filter ?P (piis e)
      = filter (\<lambda>p. \<exists>pre suf. context e = pre @ fst p @ suf) (piis e)"
    by (rule filter_cong) (simp_all add: str_in_iff case_prod_beta)
  ultimately show ?thesis
    by (simp add: refresh_pii_from_context_def)
qed

theorem refresh_pii_from_context_keeps_substrings_witness:
  "distinct (map fst (piis meeting))
   \<and> piis (refresh_pii_from_context meeting) = [(''Alice'', name_high), (''Bob'', name_low)]
   \<and> filter (\<lambda>p. \<exists>pre suf. context meeting = pre @ fst p @ suf) (piis meeting)
       = [(''Alice'', name_high), (''Bob'', name_low)]
   \<and> context (refresh_pii_from_context meeting) = ''Alice met Bob''"
proof -
  have d: "distinct (map fst (piis meeting))"
    by (simp add: meeting_def)
  have v: "piis (refresh_pii_from_context meeting) = [(''Alice'', name_high), (''Bob'', name_low)]"
    by (simp add: meeting_def refresh_pii_from_context_def dict_of_items_def)
  show ?thesis
    using d v refresh_pii_from_context_keeps_substrings [OF d] by (simp add: meeting_def)
qed

text \<open>
  C6. \<open>refresh_pii_from_context\<close> is idempotent: pruning a pruned entry changes
  nothing.
\<close>

theorem refresh_pii_from_context_idempotent:
  "refresh_pii_from_context (refresh_pii_from_context e) = refresh_pii_from_context e"
proof -
  let ?P = "\<lambda>(pii, i). str_in pii (context e)"
  let ?ps = "dict_of_items (filter ?P (piis e))"
  have "set ?ps \<subseteq> set (filter ?P (piis e))"
    by (rule dict_of_items_subset)
  then have "filter ?P ?ps = ?ps"
    by (auto simp: filter_id_conv)
  moreover have "dict_of_items ?ps = ?ps"
    by (rule dict_of_items_distinct) (rule dict_of_items_is_dict)
  ultimately show ?thesis
    by (simp add: refresh_pii_from_context_def)
qed

section \<open>Rendering\<close>




section \<open>The blocks of the script\<close>

lemma map_of_filter_key:
  "P k \<Longrightarrow> map_of (filter (\<lambda>(a, b). P a) xs) k = map_of xs k"
  by (induction xs) auto

lemma add_to_entry_value:
  assumes "str_in k (context e)" and "distinct (map fst (piis e))"
  shows "map_of (piis (add_to_entry k t r e)) k = Some \<lparr>type = t, relevance = r\<rparr>"
proof -
  let ?P = "\<lambda>(pii, i). str_in pii (context e)"
  let ?ps = "dict_set k \<lparr>type = t, relevance = r\<rparr> (piis e)"
  have "distinct (map fst ?ps)"
    using assms(2) by (rule dict_set_distinct)
  then have "distinct (map fst (filter ?P ?ps))"
    by (rule distinct_map_filter)
  then have "dict_of_items (filter ?P ?ps) = filter ?P ?ps"
    by (rule dict_of_items_distinct)
  moreover have "map_of (filter ?P ?ps) k = map_of ?ps k"
    using assms(1) by (rule map_of_filter_key [of "\<lambda>a. str_in a (context e)"])
  ultimately show ?thesis
    by (simp add: add_to_entry_def refresh_pii_from_context_def dict_set_lookup)
qed

lemma reconcile_context:
  "context (reconcile w idx e) = (case w (ContextKey idx) of None \<Rightarrow> context e | Some c \<Rightarrow> c)"
  by (simp add: reconcile_def state_get_def)

lemma save_current_edits_ok:
  assumes "idx < length es"
  shows "save_current_edits idx es s
     = Inr (s\<lparr>objects := (objects s)[es ! idx := reconcile (widgets s) idx (objects s ! (es ! idx))],
              entries := Some es\<rparr>)"
  using assms by (simp add: save_current_edits_def Let_def)

lemma init_key_frame:
  "objects (init_key k v s) = objects s" "entries (init_key k v s) = entries s"
  "original_entries (init_key k v s) = original_entries s"
  "current_idx (init_key k v s) = current_idx s"
  by (simp_all add: init_key_def)

lemma init_key_keeps: "widgets s k' = Some v' \<Longrightarrow> widgets (init_key k v s) k' = Some v'"
  by (auto simp: init_key_def)

lemma init_piis_fold_frame:
  "objects (fold (\<lambda>(pii, i) s'. init_key (RelKey idx pii) (relevance i)
                           (init_key (TypeKey idx pii) (type i) s')) ps s) = objects s
   \<and> entries (fold (\<lambda>(pii, i) s'. init_key (RelKey idx pii) (relevance i)
                           (init_key (TypeKey idx pii) (type i) s')) ps s) = entries s
   \<and> original_entries (fold (\<lambda>(pii, i) s'. init_key (RelKey idx pii) (relevance i)
                           (init_key (TypeKey idx pii) (type i) s')) ps s) = original_entries s
   \<and> current_idx (fold (\<lambda>(pii, i) s'. init_key (RelKey idx pii) (relevance i)
                           (init_key (TypeKey idx pii) (type i) s')) ps s) = current_idx s"
  by (induction ps arbitrary: s) (simp_all add: init_key_frame case_prod_beta)

lemma init_piis_fold_keeps:
  "widgets s k' = Some v' \<Longrightarrow>
   widgets (fold (\<lambda>(pii, i) s'. init_key (RelKey idx pii) (relevance i)
                           (init_key (TypeKey idx pii) (type i) s')) ps s) k' = Some v'"
  by (induction ps arbitrary: s) (simp_all add: init_key_keeps case_prod_beta)

lemma init_widgets_frame:
  "objects (init_widgets idx es s) = objects s" "entries (init_widgets idx es s) = entries s"
  "original_entries (init_widgets idx es s) = original_entries s"
  "current_idx (init_widgets idx es s) = current_idx s"
  by (simp_all add: init_widgets_def init_piis_def init_question_def init_context_def
      init_piis_fold_frame init_key_frame)

lemma init_widgets_keeps:
  "widgets s k = Some v \<Longrightarrow> widgets (init_widgets idx es s) k = Some v"
  by (simp add: init_widgets_def init_piis_def init_question_def init_context_def
      init_piis_fold_keeps init_key_keeps)

lemma settle_frame:
  "entries (settle idx es s) = Some es"
  "original_entries (settle idx es s) = original_entries s"
  "current_idx (settle idx es s) = current_idx s"
  "length (objects (settle idx es s)) = length (objects s)"
  by (simp_all add: settle_def init_widgets_frame)

lemma settle_keeps: "widgets s k = Some v \<Longrightarrow> widgets (settle idx es s) k = Some v"
  by (simp add: settle_def init_widgets_keeps)


lemma settle_context:
  assumes "es ! idx < length (objects s)" and "widgets s (ContextKey idx) = Some c"
  shows "context (objects (settle idx es s) ! (es ! idx)) = c"
  using assms by (simp add: settle_def reconcile_context init_widgets_keeps)

lemma settled_frame:
  "entries (settled idx es s) = Some es"
  "original_entries (settled idx es s) = original_entries s"
  "current_idx (settled idx es s) = current_idx s"
  "objects (settled idx es s) = objects (settle idx es s)"
  "length (objects (settled idx es s)) = length (objects s)"
  by (simp_all add: settled_def drop_stale_def settle_frame)


lemma settled_context:
  assumes "es ! idx < length (objects s)" and "widgets s (ContextKey idx) = Some c"
  shows "context (objects (settled idx es s) ! (es ! idx)) = c"
  using assms by (simp add: settled_frame settle_context)

lemma body_NoClick:
  assumes "entries s = Some es" and "current_idx s = Some idx" and "idx < length es"
  shows "body NoClick s = Inr (False, [], settle idx es s)"
  using assms
  by (simp add: body_def previous_button_def go_button_def next_button_def add_pii_button_def
      update_button_def save_button_def download_button_def load_original_button_def
      save_current_edits_def Let_def init_widgets_frame [unfolded init_widgets_def]
      init_piis_fold_frame init_key_frame init_widgets_def settle_def
       init_piis_def init_question_def init_context_def)



lemma load_block_loaded: "entries s \<noteq> None \<Longrightarrow> load_block parse up s = Inr s"
  by (simp add: load_block_def split: option.splits)

lemma run_NoClick:
  assumes "load_block parse up s = Inr s0" and "entries s0 = Some es"
    and "current_idx s0 = Some idx" and "idx < length es"
  shows "run cleans parse up NoClick s = Inr ([], settled idx es s0)"
  using assms by (simp add: run_def body_NoClick rendered_def settled_def)

lemmas example_defs = add_pii_button_def save_current_edits_def reconcile_def updated_piis_def
  dict_of_items_def state_get_def add_to_entry_def refresh_pii_from_context_def strip_def
  isspace_def entry_at_def Let_def

section \<open>Adding an annotation\<close>

text \<open>
  C1 (amended). The Add PII button works on the trimmed value \<open>new_pii_val.strip()\<close>
  and on the entry after \<open>save_current_edits\<close>, whose context is the text of the
  context widget. It shows the warning when the trimmed value is empty, the error when
  the trimmed value is not a substring of that context, and otherwise it succeeds:
  the trimmed value is inserted or overwritten in \<open>piis\<close> with the given type and
  relevance, \<open>refresh_pii_from_context\<close> is applied at once, and the \<open>piis\<close> of the
  resulting entry contain the trimmed value (the value itself, when it has no
  whitespace around it).
\<close>

theorem add_pii_button_trimmed_value:
  assumes "idx < length es" and "es ! idx < length (objects s)"
    and "widgets s (ContextKey idx) = Some ctx"
    and "distinct (map fst (piis (objects s ! (es ! idx))))"
  shows "\<exists>s1. save_current_edits idx es s = Inr s1
     \<and> context (objects s1 ! (es ! idx)) = ctx
     \<and> (if strip v = [] then
          add_pii_button True v t r idx es s
            = Inr (False, [Warning ''Please enter a PII value before adding.''], s1)
        else if \<not> (\<exists>pre suf. ctx = pre @ strip v @ suf) then
          add_pii_button True v t r idx es s
            = Inr (False,
                [Error ''The PII value does not appear in the context. Add it to the text first.''],
                s1)
        else
          (\<exists>s2. add_pii_button True v t r idx es s
                  = Inr (True, [Success (''Added PII: '' @ strip v @ '' and updated PII list.'')], s2)
             \<and> objects s2 ! (es ! idx) = add_to_entry (strip v) t r (objects s1 ! (es ! idx))
             \<and> strip v \<in> fst ` set (piis (objects s2 ! (es ! idx)))
             \<and> map_of (piis (objects s2 ! (es ! idx))) (strip v) = Some \<lparr>type = t, relevance = r\<rparr>
             \<and> context (objects s2 ! (es ! idx)) = ctx))"
proof -
  let ?a = "es ! idx"
  let ?e1 = "reconcile (widgets s) idx (objects s ! ?a)"
  let ?s1 = "s\<lparr>objects := (objects s)[?a := ?e1], entries := Some es\<rparr>"
  have s1: "save_current_edits idx es s = Inr ?s1"
    using assms(1) by (rule save_current_edits_ok)
  have e1: "objects ?s1 ! ?a = ?e1"
    using assms(2) by simp
  have c1: "context ?e1 = ctx"
    using assms(3) by (simp add: reconcile_context)
  have w1: "widgets ?s1 (ContextKey idx) = Some ctx"
    using assms(3) by simp
  have d1: "distinct (map fst (piis ?e1))"
    using assms(4) by (simp add: reconcile_def updated_piis_dict case_prod_beta comp_def)
  show ?thesis
  proof (intro exI conjI)
    show "save_current_edits idx es s = Inr ?s1" by (rule s1)
    show "context (objects ?s1 ! ?a) = ctx" using e1 c1 by simp
    show "if strip v = [] then
          add_pii_button True v t r idx es s
            = Inr (False, [Warning ''Please enter a PII value before adding.''], ?s1)
        else if \<not> (\<exists>pre suf. ctx = pre @ strip v @ suf) then
          add_pii_button True v t r idx es s
            = Inr (False,
                [Error ''The PII value does not appear in the context. Add it to the text first.''],
                ?s1)
        else
          (\<exists>s2. add_pii_button True v t r idx es s
                  = Inr (True, [Success (''Added PII: '' @ strip v @ '' and updated PII list.'')], s2)
             \<and> objects s2 ! (es ! idx) = add_to_entry (strip v) t r (objects ?s1 ! (es ! idx))
             \<and> strip v \<in> fst ` set (piis (objects s2 ! (es ! idx)))
             \<and> map_of (piis (objects s2 ! (es ! idx))) (strip v) = Some \<lparr>type = t, relevance = r\<rparr>
             \<and> context (objects s2 ! (es ! idx)) = ctx)"
    proof (cases "strip v = []")
      case True
      then show ?thesis
        using s1 w1 by (simp add: add_pii_button_def)
    next
      case nonempty: False
      show ?thesis
      proof (cases "str_in (strip v) ctx")
        case False
        then have "\<not> (\<exists>pre suf. ctx = pre @ strip v @ suf)"
          by (simp add: str_in_iff)
        with nonempty False show ?thesis
          using s1 w1 by (simp add: add_pii_button_def)
      next
        case True
        let ?e2 = "add_to_entry (strip v) t r ?e1"
        let ?s2 = "?s1\<lparr>objects := (objects ?s1)[?a := ?e2], entries := Some es\<rparr>"
        have in_ctx: "str_in (strip v) (context ?e1)"
          using True c1 by simp
        have run: "add_pii_button True v t r idx es s
            = Inr (True, [Success (''Added PII: '' @ strip v @ '' and updated PII list.'')], ?s2)"
          using s1 w1 nonempty True e1 by (simp add: add_pii_button_def Let_def)
        have e2: "objects ?s2 ! ?a = ?e2"
          using assms(2) by simp
        have sub: "\<exists>pre suf. ctx = pre @ strip v @ suf"
          using True by (simp add: str_in_iff)
        have k: "strip v \<in> fst ` set (piis ?e2)"
          using in_ctx by (rule add_to_entry_has_key)
        have m: "map_of (piis ?e2) (strip v) = Some \<lparr>type = t, relevance = r\<rparr>"
          using in_ctx d1 by (rule add_to_entry_value)
        have c2: "context ?e2 = ctx"
          using c1 by (simp add: add_to_entry_frame)
        have "\<exists>s2. add_pii_button True v t r idx es s
                  = Inr (True, [Success (''Added PII: '' @ strip v @ '' and updated PII list.'')], s2)
             \<and> objects s2 ! (es ! idx) = add_to_entry (strip v) t r (objects ?s1 ! (es ! idx))
             \<and> strip v \<in> fst ` set (piis (objects s2 ! (es ! idx)))
             \<and> map_of (piis (objects s2 ! (es ! idx))) (strip v) = Some \<lparr>type = t, relevance = r\<rparr>
             \<and> context (objects s2 ! (es ! idx)) = ctx"
          using run k m c2 by (intro exI [of _ ?s2]) (simp only: e1 e2 simp_thms)
        with nonempty sub show ?thesis
          by simp
      qed
    qed
  qed
qed

theorem add_pii_button_trimmed_value_witness:
  "(0::nat) < length [2::nat, 3] \<and> [2::nat, 3] ! 0 < length (objects editing)
   \<and> widgets editing (ContextKey 0) = Some ''Alice met Dave''
   \<and> distinct (map fst (piis (objects editing ! ([2, 3] ! 0))))
   \<and> (\<exists>s2. add_pii_button True '' Dave '' ''name'' ''low'' 0 [2, 3] editing
                  = Inr (True, [Success ''Added PII: Dave and updated PII list.''], s2)
           \<and> map_of (piis (objects s2 ! 2)) ''Dave'' = Some \<lparr>type = ''name'', relevance = ''low''\<rparr>)"
proof -
  have h: "(0::nat) < length [2::nat, 3]" "[2::nat, 3] ! 0 < length (objects editing)"
    "widgets editing (ContextKey 0) = Some ''Alice met Dave''"
    "distinct (map fst (piis (objects editing ! ([2, 3] ! 0))))"
    by (simp_all add: editing_def meeting_def)
  have v: "strip '' Dave '' = ''Dave''"
    by (simp add: strip_def isspace_def)
  have n: "(strip '' Dave '' = []) = False"
    by (simp add: v)
  have "str_in (strip '' Dave '') ''Alice met Dave''"
    by (simp add: v)
  then have sub: "(\<exists>pre suf. ''Alice met Dave'' = pre @ strip '' Dave '' @ suf) = True"
    by (simp only: str_in_iff)
  from add_pii_button_trimmed_value [OF h, of "'' Dave ''" "''name''" "''low''"]
  obtain s2 where "add_pii_button True '' Dave '' ''name'' ''low'' 0 [2, 3] editing
        = Inr (True, [Success (''Added PII: '' @ strip '' Dave '' @ '' and updated PII list.'')], s2)"
    and "map_of (piis (objects s2 ! ([2, 3] ! 0))) (strip '' Dave '')
        = Some \<lparr>type = ''name'', relevance = ''low''\<rparr>"
    unfolding n sub if_False not_True_eq_False by blast
  then have "\<exists>s2. add_pii_button True '' Dave '' ''name'' ''low'' 0 [2, 3] editing
                  = Inr (True, [Success ''Added PII: Dave and updated PII list.''], s2)
           \<and> map_of (piis (objects s2 ! 2)) ''Dave'' = Some \<lparr>type = ''name'', relevance = ''low''\<rparr>"
    by (intro exI [of _ s2]) (simp add: v)
  with h show ?thesis
    by (intro conjI)
qed


text \<open>
  The claim as written fails for a value with whitespace around it: \<open>Dave \<close> (with a
  space at its end) is not a substring of the context \<open>Alice met Dave\<close>, yet the add
  succeeds, and the key in \<open>piis\<close> is \<open>Dave\<close>, not the value.
\<close>

theorem add_pii_button_untrimmed_value:
  "\<not> str_in ''Dave '' ''Alice met Dave''
   \<and> context (reconcile (widgets editing) 0 (entry_at editing 0)) = ''Alice met Dave''
   \<and> (case add_pii_button True ''Dave '' ''name'' ''low'' 0 [2, 3] editing of
        Inl x \<Rightarrow> False
      | Inr (rerun, ms, s') \<Rightarrow>
          rerun \<and> ms = [Success ''Added PII: Dave and updated PII list.'']
          \<and> map fst (piis (entry_at s' 0)) = [''Alice'', ''Dave''])"
  by (simp add: example_defs editing_def meeting_def name_high_def name_low_def)


section \<open>A rejected annotation\<close>

text \<open>
  C4 (amended). When the Add PII button rejects the value (the trimmed value is empty
  or not in the context), it shows one message and asks for no rerun, and the state
  it leaves is the state after \<open>save_current_edits\<close>, which the button calls before it
  validates: the active index, the widget values, the two lists and every other
  entry are as before, the active entry is replaced by its reconciliation with the
  widget values, with the same annotation keys. If the widgets hold no edit that is
  not yet in the entry, nothing changes at all.
\<close>

theorem add_pii_button_rejection_saves_only:
  assumes "idx < length es" and "es ! idx < length (objects s)" and "entries s = Some es"
    and "widgets s (ContextKey idx) = Some ctx"
    and "strip v = [] \<or> \<not> (\<exists>pre suf. ctx = pre @ strip v @ suf)"
  shows "\<exists>msg s1. add_pii_button True v t r idx es s = Inr (False, [msg], s1)
      \<and> save_current_edits idx es s = Inr s1
      \<and> s1 = s\<lparr>objects := (objects s)[es ! idx := reconcile (widgets s) idx (objects s ! (es ! idx))]\<rparr>
      \<and> fst ` set (piis (objects s1 ! (es ! idx))) = fst ` set (piis (objects s ! (es ! idx)))
      \<and> (reconcile (widgets s) idx (objects s ! (es ! idx)) = objects s ! (es ! idx) \<longrightarrow> s1 = s)"
proof -
  let ?e1 = "reconcile (widgets s) idx (objects s ! (es ! idx))"
  let ?s1 = "s\<lparr>objects := (objects s)[es ! idx := ?e1]\<rparr>"
  have eq: "s\<lparr>objects := (objects s)[es ! idx := ?e1], entries := Some es\<rparr> = ?s1"
    using assms(3) by simp
  have s1: "save_current_edits idx es s = Inr ?s1"
    using save_current_edits_ok [OF assms(1), of s] eq by simp
  have w1: "widgets ?s1 (ContextKey idx) = Some ctx"
    using assms(4) by simp
  have keys: "fst ` set (piis (objects ?s1 ! (es ! idx))) = fst ` set (piis (objects s ! (es ! idx)))"
    using assms(2) by (simp add: reconcile_def updated_piis_keys)
  have same: "?e1 = objects s ! (es ! idx) \<longrightarrow> ?s1 = s"
    by simp
  from assms(5) have fails: "strip v = [] \<or> \<not> str_in (strip v) ctx"
    by (simp only: str_in_iff)
  have "\<exists>msg. add_pii_button True v t r idx es s = Inr (False, [msg], ?s1)"
  proof (cases "strip v = []")
    case True
    then show ?thesis
      using s1 w1 by (simp add: add_pii_button_def)
  next
    case False
    with fails have "\<not> str_in (strip v) ctx"
      by simp
    with False show ?thesis
      using s1 w1 by (simp add: add_pii_button_def)
  qed
  with s1 keys same show ?thesis
    by blast
qed

theorem add_pii_button_rejection_saves_only_witness:
  "(0::nat) < length [2::nat, 3] \<and> [2::nat, 3] ! 0 < length (objects editing)
   \<and> entries editing = Some [2, 3]
   \<and> widgets editing (ContextKey 0) = Some ''Alice met Dave''
   \<and> strip ''Zoe'' \<noteq> [] \<and> \<not> (\<exists>pre suf. ''Alice met Dave'' = pre @ strip ''Zoe'' @ suf)
   \<and> (\<exists>msg s1. add_pii_button True ''Zoe'' ''name'' ''low'' 0 [2, 3] editing = Inr (False, [msg], s1)
        \<and> current_idx s1 = Some 0 \<and> original_entries s1 = Some [4, 5]
        \<and> widgets s1 = widgets editing)"
proof -
  have h: "(0::nat) < length [2::nat, 3]" "[2::nat, 3] ! 0 < length (objects editing)"
    "entries editing = Some [2, 3]" "widgets editing (ContextKey 0) = Some ''Alice met Dave''"
    by (simp_all add: editing_def)
  have n: "strip ''Zoe'' \<noteq> []"
    by (simp add: strip_def isspace_def)
  have "\<not> str_in (strip ''Zoe'') ''Alice met Dave''"
    by (simp add: strip_def isspace_def)
  then have f: "\<not> (\<exists>pre suf. ''Alice met Dave'' = pre @ strip ''Zoe'' @ suf)"
    unfolding str_in_iff .
  then have "strip ''Zoe'' = [] \<or> \<not> (\<exists>pre suf. ''Alice met Dave'' = pre @ strip ''Zoe'' @ suf)"
    by (rule disjI2)
  from add_pii_button_rejection_saves_only [OF h this, of "''name''" "''low''"]
  obtain msg s1 where "add_pii_button True ''Zoe'' ''name'' ''low'' 0 [2, 3] editing = Inr (False, [msg], s1)"
    and "s1 = editing\<lparr>objects := (objects editing)[[2, 3] ! 0 := reconcile (widgets editing) 0 (objects editing ! ([2, 3] ! 0))]\<rparr>"
    by blast
  then have "\<exists>msg s1. add_pii_button True ''Zoe'' ''name'' ''low'' 0 [2, 3] editing = Inr (False, [msg], s1)
        \<and> current_idx s1 = Some 0 \<and> original_entries s1 = Some [4, 5]
        \<and> widgets s1 = widgets editing"
    by (intro exI [of _ msg] exI [of _ s1]) (simp add: editing_def)
  with h n f show ?thesis
    by (intro conjI)
qed


text \<open>
  The claim as written fails when an edit is pending: the context typed by the user
  is stored in the working list by the rejected add.
\<close>

theorem add_pii_button_rejection_changes_entry:
  "(case add_pii_button True [] ''name'' ''low'' 0 [2, 3] editing of
      Inl x \<Rightarrow> False
    | Inr (rerun, ms, s') \<Rightarrow>
        \<not> rerun \<and> ms = [Warning ''Please enter a PII value before adding.'']
        \<and> context (entry_at s' 0) = ''Alice met Dave'')
   \<and> context (entry_at editing 0) = ''Alice met Bob''"
  by (simp add: example_defs editing_def meeting_def name_high_def name_low_def)

section \<open>Reconciling\<close>

text \<open>
  C5. \<open>save_current_edits\<close> replaces the context and the question of the entry by
  the values of their widgets, and keeps the value of the entry where the widget key
  is absent; it rebuilds \<open>piis\<close> from the keys of the entry, with the type and the
  relevance of their widgets or else of the entry. It never prunes: the set of keys
  of \<open>piis\<close> is the same before and after, whatever the new context is, and for a
  dict the keys keep their order.
\<close>

theorem reconcile_keeps_every_key:
  "context (reconcile w idx e) = (case w (ContextKey idx) of None \<Rightarrow> context e | Some c \<Rightarrow> c)
   \<and> question (reconcile w idx e) = (case w (QuestionKey idx) of None \<Rightarrow> question e | Some q \<Rightarrow> q)
   \<and> other_fields (reconcile w idx e) = other_fields e
   \<and> fst ` set (piis (reconcile w idx e)) = fst ` set (piis e)
   \<and> (distinct (map fst (piis e)) \<longrightarrow>
        piis (reconcile w idx e) = map (\<lambda>(pii, i).
          (pii, \<lparr>type = (case w (TypeKey idx pii) of None \<Rightarrow> type i | Some t \<Rightarrow> t),
                 relevance = (case w (RelKey idx pii) of None \<Rightarrow> relevance i | Some r \<Rightarrow> r)\<rparr>))
          (piis e))
   \<and> (idx < length es \<longrightarrow>
        save_current_edits idx es s
          = Inr (s\<lparr>objects := (objects s)[es ! idx := reconcile (widgets s) idx (objects s ! (es ! idx))],
                   entries := Some es\<rparr>))"
  using updated_piis_dict [of "piis e" w idx]
  by (simp add: reconcile_def state_get_def updated_piis_keys save_current_edits_ok)

theorem reconcile_keeps_every_key_witness:
  "distinct (map fst (piis meeting))
   \<and> piis (reconcile [ContextKey 0 \<mapsto> ''Alice met Dave'', TypeKey 0 ''Bob'' \<mapsto> ''family''] 0 meeting)
       = [(''Alice'', name_high), (''Carol'', name_low), (''Bob'', \<lparr>type = ''family'', relevance = ''low''\<rparr>)]
   \<and> context (reconcile [ContextKey 0 \<mapsto> ''Alice met Dave'', TypeKey 0 ''Bob'' \<mapsto> ''family''] 0 meeting)
       = ''Alice met Dave''
   \<and> question (reconcile [ContextKey 0 \<mapsto> ''Alice met Dave'', TypeKey 0 ''Bob'' \<mapsto> ''family''] 0 meeting)
       = ''Who met whom?''
   \<and> (0::nat) < length [2::nat, 3]
   \<and> save_current_edits 0 [2, 3] editing
       = Inr (editing\<lparr>objects := [meeting, letter, meeting\<lparr>context := ''Alice met Dave''\<rparr>, letter, meeting, letter]\<rparr>)"
proof -
  have d: "distinct (map fst (piis meeting))"
    by (simp add: meeting_def)
  have l: "(0::nat) < length [2::nat, 3]"
    by simp
  show ?thesis
    using d l reconcile_keeps_every_key [where w = "[ContextKey 0 \<mapsto> ''Alice met Dave'', TypeKey 0 ''Bob'' \<mapsto> ''family'']"
        and idx = 0 and e = meeting and es = "[2, 3]" and s = editing]
    by (simp add: meeting_def name_high_def name_low_def editing_def reconcile_def
        updated_piis_def dict_of_items_def state_get_def save_current_edits_def)
qed



section \<open>The store and the invariant of a session\<close>

lemma those_map_None: "those (map f xs) = None \<longleftrightarrow> (\<exists>x\<in>set xs. f x = None)"
  by (induction xs) (auto split: option.splits)

lemma those_map_Some:
  "those (map f xs) = Some vs \<longleftrightarrow> (\<forall>x\<in>set xs. f x \<noteq> None) \<and> vs = map (\<lambda>x. the (f x)) xs"
  by (induction xs arbitrary: vs) (auto split: option.splits)

lemma refs_of_simps [simp]: "refs_of None = []" "refs_of (Some xs) = xs"
  by (simp_all add: refs_of_def)

lemma map_nth_append_upt:
  "map (\<lambda>a. (h @ vs) ! a) [length h ..< length h + length vs] = vs"
  by (auto simp: nth_append intro!: nth_equalityI)

lemma map_nth_append_upt2:
  "n = length h \<Longrightarrow> map (\<lambda>a. (h @ vs @ rest) ! a) [n ..< n + length vs] = vs"
  by (auto simp: nth_append intro!: nth_equalityI)

lemma load_block_Some:
  assumes "entries s = None" and "those (map parse lines) = Some vs"
  shows "load_block parse (Some lines) s
     = Inr (s\<lparr>objects := objects s @ vs @ vs @ vs,
              entries := Some [length (objects s) + length vs ..< length (objects s) + 2 * length vs],
              original_entries :=
                Some [length (objects s) + 2 * length vs ..< length (objects s) + 3 * length vs],
              current_idx := Some 0\<rparr>)"
proof -
  let ?h = "objects s"
  have 1: "map (\<lambda>a. (?h @ vs) ! a) [length ?h ..< length ?h + length vs] = vs"
    by (rule map_nth_append_upt)
  have 3: "map (\<lambda>a. (?h @ vs @ vs) ! a) [length ?h ..< length ?h + length vs] = vs"
    by (rule map_nth_append_upt2) simp
  have 2: "length ?h + length vs + length vs = length ?h + 2 * length vs"
    "length ?h + length vs + length vs + length vs = length ?h + 3 * length vs"
    "length ?h + 2 * length vs + length vs = length ?h + 3 * length vs"
    by simp_all
  show ?thesis
    using assms by (simp add: load_block_def deepcopy_def alloc_def 1 2 3)
qed

lemma load_original_Some:
  assumes "original_entries s = Some os" and "map (\<lambda>a. objects s ! a) os = vs"
  shows "load_original_button True s
     = Inr (True, [Success ''Original data reloaded.''],
         \<lparr>objects = objects s @ vs @ vs @ vs,
          entries = Some [length (objects s) + length vs ..< length (objects s) + 2 * length vs],
          original_entries =
            Some [length (objects s) + 2 * length vs ..< length (objects s) + 3 * length vs],
          current_idx = Some 0, widgets = Map.empty\<rparr>)"
proof -
  let ?h = "objects s"
  have l: "length os = length vs"
    using assms(2) by (metis length_map)
  have 1: "map (\<lambda>a. (?h @ vs) ! a) [length ?h ..< length ?h + length vs] = vs"
    by (rule map_nth_append_upt)
  have 3: "map (\<lambda>a. (?h @ vs @ vs) ! a) [length ?h ..< length ?h + length vs] = vs"
    by (rule map_nth_append_upt2) simp
  have 2: "length ?h + length vs + length vs = length ?h + 2 * length vs"
    "length ?h + length vs + length vs + length vs = length ?h + 3 * length vs"
    "length ?h + 2 * length vs + length vs = length ?h + 3 * length vs"
    by simp_all
  show ?thesis
    using assms by (simp add: load_original_button_def deepcopy_def alloc_def l 1 2 3)
qed

lemma fresh_lists_pristine:
  assumes "n = length h"
  shows "pristine vs \<lparr>objects = h @ vs @ vs @ vs,
          entries = Some [n + length vs ..< n + 2 * length vs],
          original_entries = Some [n + 2 * length vs ..< n + 3 * length vs],
          current_idx = i, widgets = w\<rparr>"
proof -
  have "map (\<lambda>a. ((h @ vs @ vs) @ vs) ! a) [length (h @ vs @ vs) ..< length (h @ vs @ vs) + length vs] = vs"
    by (rule map_nth_append_upt)
  then have "map (\<lambda>a. (h @ vs @ vs @ vs) ! a) [n + 2 * length vs ..< n + 3 * length vs] = vs"
    using assms by (simp add: mult_2 numeral_3_eq_3 add.assoc)
  then show ?thesis
    using assms by (simp add: pristine_def sound_def list_all_iff)
qed


lemma ends_in_simps [simp]:
  "ends_in P (Inl (e, s)) = P s" "ends_in P (Inr (rerun, ms, s)) = P s"
  by (simp_all add: ends_in_def)

lemma working_update:
  assumes "working vs es s" and "idx < length es"
  shows "working vs es (s\<lparr>objects := (objects s)[es ! idx := e], entries := Some es\<rparr>)"
proof -
  from assms(1) obtain os where os: "original_entries s = Some os"
    and vs: "map (\<lambda>a. objects s ! a) os = vs" and es: "entries s = Some es" and snd: "sound s"
    by (auto simp: working_def pristine_def)
  from snd es os assms(2) have "es ! idx \<notin> set os"
    by (auto simp: sound_def list_all_length)
  then have "map (\<lambda>a. (objects s)[es ! idx := e] ! a) os = map (\<lambda>a. objects s ! a) os"
    by (intro map_cong refl) (metis nth_list_update_neq)
  with vs os es snd show ?thesis
    by (simp add: working_def pristine_def sound_def)
qed

lemma working_frame:
  "working vs es s \<Longrightarrow> working vs es (s\<lparr>current_idx := i\<rparr>)"
  "working vs es s \<Longrightarrow> working vs es (s\<lparr>widgets := w\<rparr>)"
  by (auto simp: working_def pristine_def sound_def)

lemma working_save:
  assumes "working vs es s" and "idx < length es"
  shows "\<exists>s1. save_current_edits idx es s = Inr s1 \<and> working vs es s1"
  using assms by (simp add: save_current_edits_ok working_update)

lemma working_save_any:
  assumes "working vs es s"
  shows "case save_current_edits idx es s of Inl (e, s1) \<Rightarrow> working vs es s1 | Inr s1 \<Rightarrow> working vs es s1"
  using assms by (cases "idx < length es") (simp_all add: save_current_edits_def Let_def working_update)

lemma working_init_key: "working vs es s \<Longrightarrow> working vs es (init_key k v s)"
  by (simp add: init_key_def working_frame)

lemma working_init_piis:
  "working vs es s \<Longrightarrow> working vs es (fold (\<lambda>(pii, i) s'. init_key (RelKey idx pii) (relevance i)
                           (init_key (TypeKey idx pii) (type i) s')) ps s)"
  by (induction ps arbitrary: s) (simp_all add: working_init_key case_prod_beta)

lemma working_previous:
  assumes "working vs es s" and "idx < length es"
  shows "ends_in (working vs es) (previous_button clicked idx es s)"
  using assms working_save [OF assms]
  by (auto simp: previous_button_def working_frame)

lemma working_go:
  assumes "working vs es s" and "idx < length es"
  shows "ends_in (working vs es) (go_button clicked goto idx es s)"
  using assms working_save [OF assms]
  by (auto simp: go_button_def working_frame)

lemma working_next:
  assumes "working vs es s" and "idx < length es"
  shows "ends_in (working vs es) (next_button clicked idx es s)"
  using assms working_save [OF assms]
  by (auto simp: next_button_def working_frame)

lemma working_add:
  assumes "working vs es s" and "idx < length es"
  shows "ends_in (working vs es) (add_pii_button clicked v t r idx es s)"
proof -
  from working_save [OF assms] obtain s1 where s1: "save_current_edits idx es s = Inr s1"
    and w1: "working vs es s1"
    by blast
  from w1 assms(2) have "working vs es (s1\<lparr>objects := (objects s1)[es ! idx := e], entries := Some es\<rparr>)" for e
    by (rule working_update)
  with assms(1) s1 w1 show ?thesis
    by (auto simp: add_pii_button_def Let_def split: option.splits)
qed

lemma working_update_button:
  assumes "working vs es s" and "idx < length es"
  shows "ends_in (working vs es) (update_button clicked idx es s)"
proof -
  from working_save [OF assms] obtain s1 where s1: "save_current_edits idx es s = Inr s1"
    and w1: "working vs es s1"
    by blast
  from w1 assms(2) have "working vs es (s1\<lparr>objects := (objects s1)[es ! idx := e], entries := Some es\<rparr>)" for e
    by (rule working_update)
  with assms(1) s1 w1 show ?thesis
    by (auto simp: update_button_def Let_def)
qed

lemma working_save_button:
  assumes "working vs es s" and "idx < length es"
  shows "ends_in (working vs es) (save_button clicked idx es s)"
  using assms working_save [OF assms]
  by (auto simp: save_button_def)

lemma working_download:
  assumes "working vs es s"
  shows "ends_in (working vs es) (download_button clicked s)"
proof (cases "current_idx s")
  case None
  with assms show ?thesis by (simp add: download_button_def)
next
  case (Some cur)
  from assms have es: "entries s = Some es"
    by (simp add: working_def)
  from working_save_any [OF assms, of cur] Some es show ?thesis
    by (auto simp: download_button_def split: sum.splits)
qed

lemma pristine_load_original:
  assumes "pristine vs s"
  shows "ends_in (pristine vs) (load_original_button clicked s)"
proof (cases clicked)
  case False
  with assms show ?thesis by (simp add: load_original_button_def)
next
  case True
  from assms obtain os where os: "original_entries s = Some os"
    and vs: "map (\<lambda>a. objects s ! a) os = vs"
    by (auto simp: pristine_def)
  show ?thesis
    using True by (simp add: load_original_Some [OF os vs] fresh_lists_pristine)
qed


lemma run_blocks_ends_in:
  assumes step: "\<And>b s. b \<in> set bs \<Longrightarrow> I s \<Longrightarrow>
      (case b s of Inl (e, s') \<Rightarrow> J s' | Inr (rerun, ms, s') \<Rightarrow> if rerun then J s' else I s')"
    and weaker: "\<And>s. I s \<Longrightarrow> J s"
  shows "I s \<Longrightarrow> ends_in J (run_blocks bs s)"
  using step
proof (induction bs arbitrary: s)
  case Nil
  then show ?case by (simp add: weaker)
next
  case (Cons b bs)
  have first: "case b s of Inl (e, s') \<Rightarrow> J s' | Inr (rerun, ms, s') \<Rightarrow> if rerun then J s' else I s'"
    using Cons.prems by simp
  show ?case
  proof (cases "b s")
    case (Inl x)
    with first show ?thesis by (cases x) simp
  next
    case (Inr y)
    obtain rerun ms s1 where y: "y = (rerun, ms, s1)" by (cases y)
    show ?thesis
    proof (cases rerun)
      case True
      with first Inr y show ?thesis by simp
    next
      case False
      with first Inr y have "I s1" by simp
      then have "ends_in J (run_blocks bs s1)"
        using Cons.prems(2) by (intro Cons.IH) simp_all
      with Inr y False show ?thesis
        by (auto simp: ends_in_def split: sum.splits)
    qed
  qed
qed

lemma ends_in_block:
  assumes "ends_in I (b s)" and "\<And>s. I s \<Longrightarrow> J s"
  shows "case b s of Inl (e, s') \<Rightarrow> J s' | Inr (rerun, ms, s') \<Rightarrow> if rerun then J s' else I s'"
  using assms by (auto simp: ends_in_def split: sum.splits)

lemma body_pristine:
  assumes "pristine vs s"
  shows "ends_in (pristine vs) (body c s)"
proof -
  from assms obtain es where es: "entries s = Some es"
    by (auto simp: pristine_def)
  show ?thesis
  proof (cases "current_idx s")
    case None
    with es assms show ?thesis by (simp add: body_def)
  next
    case (Some idx)
    show ?thesis
    proof (cases "idx < length es")
      case False
      with es Some assms show ?thesis by (simp add: body_def)
    next
      case True
      let ?bs = "[previous_button (c = Previous) idx es,
                  (case c of Go goto \<Rightarrow> go_button True goto idx es
                   | _ \<Rightarrow> go_button False (idx + 1) idx es),
                  next_button (c = Next) idx es,
                  (\<lambda>s. Inr (False, [], init_context idx es s)),
                  (case c of AddPII v t r \<Rightarrow> add_pii_button True v t r idx es
                   | _ \<Rightarrow> add_pii_button False [] [] [] idx es),
                  update_button (c = UpdatePII) idx es,
                  (\<lambda>s. Inr (False, [], init_question idx es s)),
                  (\<lambda>s. Inr (False, [], init_piis idx es s)),
                  save_button (c = SaveEdits) idx es,
                  download_button (c = Download),
                  load_original_button (c = LoadOriginal)]"
      have weaker: "\<And>s. working vs es s \<Longrightarrow> pristine vs s"
        by (simp add: working_def)
      have blocks: "case b s of Inl (e, s') \<Rightarrow> pristine vs s'
          | Inr (rerun, ms, s') \<Rightarrow> if rerun then pristine vs s' else working vs es s'"
        if "b \<in> set ?bs" and w: "working vs es s" for b s
      proof -
        have go: "ends_in (working vs es)
            ((case c of Go goto \<Rightarrow> go_button True goto idx es
                   | _ \<Rightarrow> go_button False (idx + 1) idx es) s)"
          using w True by (cases c) (simp_all add: working_go)
        have add: "ends_in (working vs es)
            ((case c of AddPII v t r \<Rightarrow> add_pii_button True v t r idx es
                   | _ \<Rightarrow> add_pii_button False [] [] [] idx es) s)"
          using w True by (cases c) (simp_all add: working_add)
        have lo: "case load_original_button (c = LoadOriginal) s of Inl (e, s') \<Rightarrow> pristine vs s'
          | Inr (rerun, ms, s') \<Rightarrow> if rerun then pristine vs s' else working vs es s'"
        proof (cases "c = LoadOriginal")
          case False
          with w show ?thesis by (simp add: load_original_button_def)
        next
          case True
          from w have "pristine vs s" by (rule weaker)
          from pristine_load_original [OF this, of True] True w show ?thesis
            by (auto simp: load_original_button_def Let_def working_def pristine_def
                split: option.splits prod.splits)
        qed
        from that(1) consider
            "b = previous_button (c = Previous) idx es"
          | "b = (case c of Go goto \<Rightarrow> go_button True goto idx es
                   | _ \<Rightarrow> go_button False (idx + 1) idx es)"
          | "b = next_button (c = Next) idx es"
          | "b = (\<lambda>s. Inr (False, [], init_context idx es s))"
          | "b = (case c of AddPII v t r \<Rightarrow> add_pii_button True v t r idx es
                   | _ \<Rightarrow> add_pii_button False [] [] [] idx es)"
          | "b = update_button (c = UpdatePII) idx es"
          | "b = (\<lambda>s. Inr (False, [], init_question idx es s))"
          | "b = (\<lambda>s. Inr (False, [], init_piis idx es s))"
          | "b = save_button (c = SaveEdits) idx es"
          | "b = download_button (c = Download)"
          | "b = load_original_button (c = LoadOriginal)"
          by auto
        then show ?thesis
        proof cases
          case 1
          with w True weaker show ?thesis by (intro ends_in_block) (simp_all add: working_previous)
        next
          case 2
          with go weaker show ?thesis by (intro ends_in_block) simp_all
        next
          case 3
          with w True weaker show ?thesis by (intro ends_in_block) (simp_all add: working_next)
        next
          case 4
          with w show ?thesis by (simp add: init_context_def working_init_key)
        next
          case 5
          with add weaker show ?thesis by (intro ends_in_block) simp_all
        next
          case 6
          with w True weaker show ?thesis by (intro ends_in_block) (simp_all add: working_update_button)
        next
          case 7
          with w show ?thesis by (simp add: init_question_def working_init_key)
        next
          case 8
          with w show ?thesis by (simp add: init_piis_def working_init_piis)
        next
          case 9
          with w True weaker show ?thesis by (intro ends_in_block) (simp_all add: working_save_button)
        next
          case 10
          with w weaker show ?thesis by (intro ends_in_block) (simp_all add: working_download)
        next
          case 11
          with lo show ?thesis by simp
        qed
      qed
      have "working vs es s"
        using assms es by (simp add: working_def)
      with blocks weaker have "ends_in (pristine vs) (run_blocks ?bs s)"
        by (intro run_blocks_ends_in [where I = "working vs es"]) blast+
      with es Some True show ?thesis
        by (simp add: body_def)
    qed
  qed
qed


lemma drop_stale_frame [simp]:
  "objects (drop_stale ks s) = objects s" "entries (drop_stale ks s) = entries s"
  "original_entries (drop_stale ks s) = original_entries s"
  "current_idx (drop_stale ks s) = current_idx s"
  by (simp_all add: drop_stale_def)

lemma pristine_drop_stale [simp]: "pristine vs (drop_stale ks s) = pristine vs s"
  by (simp add: pristine_def sound_def)

lemma run_pristine:
  assumes "pristine vs s"
  shows "case run cleans parse up c s of
           Inl (e, s') \<Rightarrow> pristine vs s' | Inr (ms, s') \<Rightarrow> pristine vs s'"
proof -
  from assms have l: "load_block parse up s = Inr s"
    by (intro load_block_loaded) (simp add: pristine_def)
  have b: "ends_in (pristine vs) (body c s)"
    using assms by (rule body_pristine)
  show ?thesis
  proof (cases "body c s")
    case (Inl x)
    with l b show ?thesis
      by (cases x) (simp add: run_def)
  next
    case (Inr y)
    obtain rerun ms s1 where y: "y = (rerun, ms, s1)" by (cases y)
    define s2 where "s2 = (if cleans then drop_stale (rendered c True s s1) s1 else s1)"
    from b Inr y have p1: "pristine vs s1"
      by simp
    then have p2: "pristine vs s2"
      by (simp add: s2_def)
    then have l2: "load_block parse up s2 = Inr s2"
      by (intro load_block_loaded) (simp add: pristine_def)
    from p2 have "ends_in (pristine vs) (body NoClick s2)"
      by (rule body_pristine)
    with l Inr y p1 l2 show ?thesis
      unfolding s2_def by (auto simp: run_def ends_in_def split: sum.splits)
  qed
qed

lemma steps_pristine:
  assumes "steps parse s0 s" and "pristine vs s0"
  shows "pristine vs s"
  using assms
proof (induction rule: steps.induct)
  case start
  then show ?case by simp
next
  case (user_edit s k v)
  then show ?case by (simp add: pristine_def sound_def)
next
  case (keys_removed s kept)
  then show ?case by simp
next
  case (run_returns s cleans uploaded_file c ms s')
  with run_pristine [of vs s cleans parse uploaded_file c] show ?case by simp
next
  case (run_raises s cleans uploaded_file c e s')
  with run_pristine [of vs s cleans parse uploaded_file c] show ?case by simp
qed

lemma load_block_pristine:
  assumes "entries s = None" and "load_block parse (Some lines) s = Inr s'" and "entries s' \<noteq> None"
  shows "\<exists>vs. those (map parse lines) = Some vs \<and> pristine vs s'"
proof (cases "those (map parse lines)")
  case None
  with assms show ?thesis by (simp add: load_block_def)
next
  case (Some vs)
  from load_block_Some [OF assms(1) Some] assms(2)
  have "s' = s\<lparr>objects := objects s @ vs @ vs @ vs,
              entries := Some [length (objects s) + length vs ..< length (objects s) + 2 * length vs],
              original_entries :=
                Some [length (objects s) + 2 * length vs ..< length (objects s) + 3 * length vs],
              current_idx := Some 0\<rparr>"
    by simp
  also have "\<dots> = \<lparr>objects = objects s @ vs @ vs @ vs,
              entries = Some [length (objects s) + length vs ..< length (objects s) + 2 * length vs],
              original_entries =
                Some [length (objects s) + 2 * length vs ..< length (objects s) + 3 * length vs],
              current_idx = Some 0, widgets = widgets s\<rparr>"
    by simp
  finally have "pristine vs s'"
    by (simp add: fresh_lists_pristine)
  with Some show ?thesis by simp
qed

lemma body_not_loaded:
  "entries s = None \<Longrightarrow> body c s = Inr (False, [Info ''Upload a .jsonl file to begin annotation.''], s)"
  by (simp add: body_def)

lemma run_loaded_with_original:
  assumes "loaded_with_original s"
  shows "case run cleans parse up c s of Inl (e, s') \<Rightarrow> loaded_with_original s'
         | Inr (ms, s') \<Rightarrow> loaded_with_original s'"
proof (cases "entries s = None")
  case False
  with assms obtain vs where "pristine vs s"
    by (auto simp: loaded_with_original_def)
  from run_pristine [OF this, of cleans parse up c] show ?thesis
    by (auto simp: loaded_with_original_def split: sum.splits)
next
  case True
  show ?thesis
  proof (cases "load_block parse up s")
    case (Inl x)
    with True have "x = (JSONDecodeError, s)"
      by (auto simp: load_block_def split: option.splits if_splits prod.splits)
    with Inl assms show ?thesis
      by (simp add: run_def)
  next
    case (Inr s0)
    show ?thesis
    proof (cases "entries s0 = None")
      case n: True
      then show ?thesis
        using Inr by (simp add: run_def body_not_loaded loaded_with_original_def)
    next
      case False
      with True Inr obtain lines where "up = Some lines"
        by (cases up) (auto simp: load_block_def)
      with True Inr False obtain vs where p0: "pristine vs s0"
        using load_block_pristine [of s parse lines s0] by blast
      then have l0: "load_block parse up s0 = Inr s0"
        by (intro load_block_loaded) (simp add: pristine_def)
      have "case run cleans parse up c s0 of
          Inl (e, s') \<Rightarrow> pristine vs s' | Inr (ms, s') \<Rightarrow> pristine vs s'"
        using p0 by (rule run_pristine)
      moreover have "run cleans parse up c s = run cleans parse up c s0"
        using Inr l0 by (simp add: run_def)
      ultimately show ?thesis
        by (auto simp: loaded_with_original_def split: sum.splits)
    qed
  qed
qed

lemma steps_loaded_with_original:
  assumes "steps parse s0 s" and "loaded_with_original s0"
  shows "loaded_with_original s"
  using assms
proof (induction rule: steps.induct)
  case start
  then show ?case by simp
next
  case (user_edit s k v)
  then show ?case by (auto simp: loaded_with_original_def pristine_def sound_def)
next
  case (keys_removed s kept)
  then show ?case by (simp add: loaded_with_original_def)
next
  case (run_returns s cleans uploaded_file c ms s')
  with run_loaded_with_original [of s cleans parse uploaded_file c] show ?case by simp
next
  case (run_raises s cleans uploaded_file c e s')
  with run_loaded_with_original [of s cleans parse uploaded_file c] show ?case by simp
qed

lemma fresh_lists_read:
  assumes "n = length h"
  shows "map (entry_at \<lparr>objects = h @ vs @ vs @ vs,
          entries = Some [n + length vs ..< n + 2 * length vs],
          original_entries = Some [n + 2 * length vs ..< n + 3 * length vs],
          current_idx = i, widgets = w\<rparr>) [0 ..< length vs] = vs"
    and "map (original_at \<lparr>objects = h @ vs @ vs @ vs,
          entries = Some [n + length vs ..< n + 2 * length vs],
          original_entries = Some [n + 2 * length vs ..< n + 3 * length vs],
          current_idx = i, widgets = w\<rparr>) [0 ..< length vs] = vs"
  using assms by (auto simp: entry_at_def original_at_def nth_append intro!: nth_equalityI)

lemma load_two_lines: "load_block two_lines (Some [''m'', ''l'']) new_session = Inr loaded"
  by (simp add: load_block_def two_lines_def new_session_def loaded_def alloc_def deepcopy_def)

lemma loaded_edit: "loaded\<lparr>widgets := (widgets loaded)(ContextKey 0 \<mapsto> ''Alice met Dave'')\<rparr> = editing"
  by (simp add: loaded_def editing_def)

lemma steps_to_saved: "steps two_lines loaded (settled 0 [2, 3] editing)"
proof -
  have "steps two_lines loaded loaded"
    by (rule steps.start)
  then have "steps two_lines loaded (loaded\<lparr>widgets := (widgets loaded)(ContextKey 0 \<mapsto> ''Alice met Dave'')\<rparr>)"
    by (rule steps.user_edit)
  then have e: "steps two_lines loaded editing"
    by (simp only: loaded_edit)
  have "load_block two_lines None editing = Inr editing"
    by (simp add: load_block_def)
  then have "run cleans two_lines None NoClick editing = Inr ([], settled 0 [2, 3] editing)"
    by (rule run_NoClick) (simp_all add: editing_def)
  with e show ?thesis
    by (rule steps.run_returns)
qed

lemma saved_context: "context (entry_at (settled 0 [2, 3] editing) 0) = ''Alice met Dave''"
proof -
  have "context (objects (settled 0 [2, 3] editing) ! ([2, 3] ! 0)) = ''Alice met Dave''"
    by (rule settled_context) (simp_all add: editing_def)
  then show ?thesis
    by (simp add: entry_at_def settled_frame)
qed

lemma steps_from_new: "steps two_lines new_session (settled 0 [2, 3] loaded)"
proof -
  have "steps two_lines new_session (new_session :: entry session)"
    by (rule steps.start)
  moreover have "run cleans two_lines (Some [''m'', ''l'']) NoClick new_session = Inr ([], settled 0 [2, 3] loaded)"
    using load_two_lines by (rule run_NoClick) (simp_all add: loaded_def)
  ultimately show ?thesis
    by (rule steps.run_returns)
qed

section \<open>Navigation\<close>














section \<open>Load Original\<close>

text \<open>
  C8. Let a session be loaded from lines that all parse, to the values \<open>vs\<close>. In every
  state the session reaches afterwards, whatever the user edits and clicks, the Load
  Original button succeeds and asks for a rerun; entry \<open>i\<close> of the working list and
  entry \<open>i\<close> of the original list are then \<open>vs ! i\<close>, the entry as parsed, for every
  \<open>i\<close>; both lists consist of new dicts, allocated by this click, distinct from one
  another; every widget key is gone and the index is 0.
\<close>

theorem load_original_restores_parsed_entries:
  assumes "entries s_init = None" and "load_block parse (Some lines) s_init = Inr s0"
    and "steps parse s0 s"
  shows "\<exists>vs ms s'. those (map parse lines) = Some vs
      \<and> load_original_button True s = Inr (True, ms, s')
      \<and> map (entry_at s') [0 ..< length vs] = vs
      \<and> map (original_at s') [0 ..< length vs] = vs
      \<and> length (refs_of (entries s')) = length vs
      \<and> length (refs_of (original_entries s')) = length vs
      \<and> list_all (\<lambda>a. length (objects s) \<le> a) (refs_of (entries s') @ refs_of (original_entries s'))
      \<and> sound s'
      \<and> widgets s' = Map.empty
      \<and> current_idx s' = Some 0"
proof -
  obtain vs where vs: "those (map parse lines) = Some vs"
    using assms(1,2) by (cases "those (map parse lines)") (simp_all add: load_block_def)
  from load_block_Some [OF assms(1) vs] assms(2) have "entries s0 \<noteq> None"
    by auto
  with assms(1,2) vs have "pristine vs s0"
    using load_block_pristine [of s_init parse lines s0] by auto
  with assms(3) have p: "pristine vs s"
    by (rule steps_pristine)
  then obtain os where os: "original_entries s = Some os"
    and v: "map (\<lambda>a. objects s ! a) os = vs"
    by (auto simp: pristine_def)
  let ?n = "length (objects s)"
  let ?s' = "\<lparr>objects = objects s @ vs @ vs @ vs,
          entries = Some [?n + length vs ..< ?n + 2 * length vs],
          original_entries = Some [?n + 2 * length vs ..< ?n + 3 * length vs],
          current_idx = Some 0, widgets = Map.empty\<rparr> :: entry session"
  have run: "load_original_button True s = Inr (True, [Success ''Original data reloaded.''], ?s')"
    using os v by (rule load_original_Some)
  have "pristine vs ?s'"
    by (rule fresh_lists_pristine) simp
  then have snd: "sound ?s'"
    by (simp add: pristine_def)
  have read: "map (entry_at ?s') [0 ..< length vs] = vs" "map (original_at ?s') [0 ..< length vs] = vs"
    by (rule fresh_lists_read, simp)+
  have fresh: "list_all (\<lambda>a. ?n \<le> a) (refs_of (entries ?s') @ refs_of (original_entries ?s'))"
    by (auto simp: list_all_iff)
  have len: "length (refs_of (entries ?s')) = length vs"
    "length (refs_of (original_entries ?s')) = length vs"
    by simp_all
  have rest: "widgets ?s' = Map.empty" "current_idx ?s' = Some 0"
    by simp_all
  from vs run read len fresh snd rest show ?thesis
    by blast
qed

theorem load_original_restores_parsed_entries_witness:
  "entries (new_session :: entry session) = None
   \<and> load_block two_lines (Some [''m'', ''l'']) new_session = Inr loaded
   \<and> steps two_lines loaded (settled 0 [2, 3] editing)
   \<and> context (entry_at (settled 0 [2, 3] editing) 0) = ''Alice met Dave''
   \<and> (\<exists>ms s'. load_original_button True (settled 0 [2, 3] editing) = Inr (True, ms, s')
         \<and> map (entry_at s') [0, 1] = [meeting, letter]
         \<and> map (original_at s') [0, 1] = [meeting, letter]
         \<and> widgets s' = Map.empty
         \<and> current_idx s' = Some 0)"
proof -
  have h: "entries (new_session :: entry session) = None"
    "load_block two_lines (Some [''m'', ''l'']) new_session = Inr loaded"
    "steps two_lines loaded (settled 0 [2, 3] editing)"
    by (simp add: new_session_def, rule load_two_lines, rule steps_to_saved)
  have vs: "those (map two_lines [''m'', ''l'']) = Some [meeting, letter]"
    by (simp add: two_lines_def)
  from load_original_restores_parsed_entries [OF h] obtain vs' ms s'
    where a: "those (map two_lines [''m'', ''l'']) = Some vs'"
      and b: "load_original_button True (settled 0 [2, 3] editing) = Inr (True, ms, s')"
      and c: "map (entry_at s') [0 ..< length vs'] = vs'"
        "map (original_at s') [0 ..< length vs'] = vs'"
      and d: "widgets s' = Map.empty" "current_idx s' = Some 0"
    by blast
  from a vs have "vs' = [meeting, letter]"
    by simp
  with c have "map (entry_at s') [0, 1] = [meeting, letter]"
    "map (original_at s') [0, 1] = [meeting, letter]"
    by simp_all
  with b d
  have r: "\<exists>ms s'. load_original_button True (settled 0 [2, 3] editing) = Inr (True, ms, s')
         \<and> map (entry_at s') [0, 1] = [meeting, letter]
         \<and> map (original_at s') [0, 1] = [meeting, letter]
         \<and> widgets s' = Map.empty
         \<and> current_idx s' = Some 0"
    by (intro exI [of _ ms] exI [of _ s']) simp
  from h saved_context r show ?thesis
    by (intro conjI)
qed

section \<open>The original list is always there\<close>

text \<open>
  C10. In every state a new session reaches, if \<open>st.session_state\<close> holds \<open>entries\<close>
  then it holds \<open>original_entries\<close> too; so a click on Load Original reloads, and
  never takes the branch that warns that no original data was found.
\<close>

theorem original_entries_present_when_loaded:
  assumes "steps parse new_session s" and "entries s \<noteq> None"
  shows "original_entries s \<noteq> None
     \<and> (\<exists>ms s'. load_original_button True s = Inr (True, ms, s'))
     \<and> load_original_button True s \<noteq> Inr (False, [Warning ''No original data found to restore.''], s)"
proof -
  have "loaded_with_original (new_session :: entry session)"
    by (simp add: loaded_with_original_def new_session_def)
  with assms(1) have "loaded_with_original s"
    by (rule steps_loaded_with_original)
  with assms(2) obtain vs where "pristine vs s"
    by (auto simp: loaded_with_original_def)
  then obtain os where os: "original_entries s = Some os"
    and v: "map (\<lambda>a. objects s ! a) os = vs"
    by (auto simp: pristine_def)
  from load_original_Some [OF os v] os show ?thesis
    by simp
qed

theorem original_entries_present_when_loaded_witness:
  "steps two_lines new_session (settled 0 [2, 3] loaded)
   \<and> entries (settled 0 [2, 3] loaded) \<noteq> None
   \<and> original_entries (settled 0 [2, 3] loaded) = Some [4, 5]
   \<and> (\<exists>ms s'. load_original_button True (settled 0 [2, 3] loaded) = Inr (True, ms, s'))"
proof -
  have h: "steps two_lines new_session (settled 0 [2, 3] loaded)"
    "entries (settled 0 [2, 3] loaded) \<noteq> None"
    by (rule steps_from_new, simp add: settled_frame)
  have o: "original_entries (settled 0 [2, 3] loaded) = Some [4, 5]"
    by (simp add: settled_frame loaded_def)
  from original_entries_present_when_loaded [OF h]
  have "\<exists>ms s'. load_original_button True (settled 0 [2, 3] loaded) = Inr (True, ms, s')"
    by blast
  with h o show ?thesis
    by (intro conjI)
qed

section \<open>Loading a file\<close>

text \<open>
  C9 (amended). In a session without \<open>entries\<close>, the load block parses each line with
  \<open>json.loads\<close>. If any line does not parse, the block raises JSONDecodeError and the
  state is as before: no list is stored, not even for the lines that parse. If every
  line parses, the working list and the original list hold, in the order of the
  lines, the values parsed, in new dicts of their own, and the index is 0. The block
  does not look into the values: a line that is JSON is loaded whether or not it has
  the keys \<open>context\<close>, \<open>question\<close> and \<open>piis\<close>.
\<close>

theorem load_block_all_or_nothing:
  assumes "entries s = None"
  shows "((\<exists>l\<in>set lines. parse l = None) \<longrightarrow>
            load_block parse (Some lines) s = Inl (JSONDecodeError, s))
     \<and> ((\<forall>l\<in>set lines. parse l \<noteq> None) \<longrightarrow>
          (\<exists>s'. load_block parse (Some lines) s = Inr s'
             \<and> map (entry_at s') [0 ..< length lines] = map (\<lambda>l. the (parse l)) lines
             \<and> map (original_at s') [0 ..< length lines] = map (\<lambda>l. the (parse l)) lines
             \<and> length (refs_of (entries s')) = length lines
             \<and> current_idx s' = Some 0
             \<and> widgets s' = widgets s
             \<and> sound s'))"
proof (intro conjI impI)
  assume "\<exists>l\<in>set lines. parse l = None"
  then have "those (map parse lines) = None"
    by (simp add: those_map_None)
  with assms show "load_block parse (Some lines) s = Inl (JSONDecodeError, s)"
    by (simp add: load_block_def)
next
  assume all: "\<forall>l\<in>set lines. parse l \<noteq> None"
  let ?vs = "map (\<lambda>l. the (parse l)) lines"
  let ?n = "length (objects s)"
  let ?s' = "\<lparr>objects = objects s @ ?vs @ ?vs @ ?vs,
          entries = Some [?n + length ?vs ..< ?n + 2 * length ?vs],
          original_entries = Some [?n + 2 * length ?vs ..< ?n + 3 * length ?vs],
          current_idx = Some 0, widgets = widgets s\<rparr>"
  from all have "those (map parse lines) = Some ?vs"
    by (simp add: those_map_Some)
  from load_block_Some [OF assms this]
  have run: "load_block parse (Some lines) s = Inr ?s'"
    by simp
  have "pristine ?vs ?s'"
    by (rule fresh_lists_pristine) simp
  then have snd: "sound ?s'"
    by (simp add: pristine_def)
  have read: "map (entry_at ?s') [0 ..< length ?vs] = ?vs"
    "map (original_at ?s') [0 ..< length ?vs] = ?vs"
    by (rule fresh_lists_read, simp)+
  then have read': "map (entry_at ?s') [0 ..< length lines] = ?vs"
    "map (original_at ?s') [0 ..< length lines] = ?vs"
    by simp_all
  have rest: "length (refs_of (entries ?s')) = length lines" "current_idx ?s' = Some 0"
    "widgets ?s' = widgets s"
    by simp_all
  from run read' rest snd
  show "\<exists>s'. load_block parse (Some lines) s = Inr s'
             \<and> map (entry_at s') [0 ..< length lines] = map (\<lambda>l. the (parse l)) lines
             \<and> map (original_at s') [0 ..< length lines] = map (\<lambda>l. the (parse l)) lines
             \<and> length (refs_of (entries s')) = length lines
             \<and> current_idx s' = Some 0
             \<and> widgets s' = widgets s
             \<and> sound s'"
    by blast
qed

theorem load_block_all_or_nothing_witness:
  "entries (new_session :: json session) = None
   \<and> loads ''{oops'' = None
   \<and> load_block loads (Some [''{}'', ''{oops'', ''7'']) new_session = Inl (JSONDecodeError, new_session)
   \<and> (\<exists>s'. load_block loads (Some [''{}'', ''7'']) new_session = Inr s'
         \<and> map (entry_at s') [0, 1] = [JObj [], JNum ''7'']
         \<and> map (original_at s') [0, 1] = [JObj [], JNum ''7''])"
proof -
  have h: "entries (new_session :: json session) = None"
    by (simp add: new_session_def)
  have bad: "loads ''{oops'' = None"
    by (simp add: loads_def)
  then have "\<exists>l\<in>set [''{}'', ''{oops'', ''7'']. loads l = None"
    by simp
  with load_block_all_or_nothing [OF h, of "[''{}'', ''{oops'', ''7'']" loads]
  have a: "load_block loads (Some [''{}'', ''{oops'', ''7'']) new_session = Inl (JSONDecodeError, new_session)"
    by blast
  have "\<forall>l\<in>set [''{}'', ''7'']. loads l \<noteq> None"
    by (simp add: loads_def)
  with load_block_all_or_nothing [OF h, of "[''{}'', ''7'']" loads]
  have "\<exists>s'. load_block loads (Some [''{}'', ''7'']) new_session = Inr s'
         \<and> map (entry_at s') [0 ..< length [''{}'', ''7'']] = map (\<lambda>l. the (loads l)) [''{}'', ''7'']
         \<and> map (original_at s') [0 ..< length [''{}'', ''7'']] = map (\<lambda>l. the (loads l)) [''{}'', ''7'']"
    by blast
  then have b: "\<exists>s'. load_block loads (Some [''{}'', ''7'']) new_session = Inr s'
         \<and> map (entry_at s') [0, 1] = [JObj [], JNum ''7'']
         \<and> map (original_at s') [0, 1] = [JObj [], JNum ''7'']"
    by (simp add: loads_def)
  from h bad a b show ?thesis
    by (intro conjI)
qed

text \<open>
  The claim as written fails for a line that is JSON but has none of the three keys:
  the line \<open>{}\<close> is loaded into both lists.
\<close>

theorem load_block_accepts_missing_fields:
  "(case load_block loads (Some [''{}'']) new_session of
      Inl x \<Rightarrow> False
    | Inr s' \<Rightarrow> map (entry_at s') [0] = [JObj []] \<and> map (original_at s') [0] = [JObj []]
        \<and> entries s' = Some [1] \<and> original_entries s' = Some [2])"
  by (simp add: load_block_def loads_def new_session_def alloc_def deepcopy_def
      entry_at_def original_at_def)

end
